theory Spec2Isabelle
  imports Main "HOL-Library.AList" "HOL-Library.Multiset"
begin

section \<open>Syntax trees and the compiler interface used by \<^verbatim>\<open>sorting.ts\<close>\<close>

text \<open>
  \<^verbatim>\<open>src/compiler/sorting.ts\<close> reorders the source files of a program: \<^verbatim>\<open>buildDependencyMap\<close>
  walks the top-level code of every file that is not a declaration file and records, per file
  name, the names of the files it depends on; \<^verbatim>\<open>sortOnDependency\<close> gives every file a weight
  by a depth-first propagation along these edges, reports a circular reference if one is met,
  and otherwise sorts the files by descending weight.

  The syntax tree is a datatype with one constructor for every node kind whose fields the
  source reads, holding exactly those fields; every other node is an \<open>OtherNode\<close> with its
  \<^verbatim>\<open>kind\<close> and its children. Intermediate nodes with a single field of interest are
  flattened: a \<open>VariableStatement\<close> holds the \<^verbatim>\<open>initializer\<close> of each of
  \<^verbatim>\<open>declarationList.declarations\<close>, a \<open>TemplateExpression\<close> the \<^verbatim>\<open>expression\<close> of each template
  span, a decorator list the \<^verbatim>\<open>expression\<close> of each decorator, a heritage clause its
  \<^verbatim>\<open>token\<close> and the \<^verbatim>\<open>expression\<close> of each of its \<^verbatim>\<open>types\<close>, and a parameter list the
  \<^verbatim>\<open>decorators\<close> of each parameter. An optional field is an \<open>option\<close>.
\<close>

datatype SyntaxKind =
    Block | IfStatement | DoStatement | WhileStatement | ForStatement | ForInStatement
  | ForOfStatement | ContinueStatement | BreakStatement | ReturnStatement | WithStatement
  | SwitchStatement | LabeledStatement | ThrowStatement | TryStatement | DebuggerStatement
  | OtherKind

datatype ModifierFlags = Ambient | Static

datatype HeritageToken = ExtendsKeyword | ImplementsKeyword

datatype node =
    Identifier string
  | PropertyAccessExpression node string
  | ElementAccessExpression node "node option"
  | CallExpression node "node list"
  | NewExpression node "node list option"
  | ObjectLiteralExpression "node list"
  | PropertyAssignment node
  | ShorthandPropertyAssignment "node option"
  | SpreadAssignment node
  | ArrayLiteralExpression "node list"
  | TemplateExpression "node list"
  | ParenthesizedExpression node
  | BinaryExpression node node
  | PrefixUnaryExpression node
  | PostfixUnaryExpression node
  | DeleteExpression node
  | FunctionExpression node
  | ExpressionStatement node
  | VariableStatement "node option list"
  | ImportEqualsDeclaration node
  | ModuleDeclaration "node option"
  | ModuleBlock "node list"
  | ClassDeclaration "node list option" "(HeritageToken \<times> node list option) list option"
      "node list option"
  | PropertyDeclaration "node list option" "node option"
  | Constructor "node option"
  | MethodDeclaration "node list option" "node list option list" "node option"
  | GetAccessor "node list option"
  | SetAccessor "node list option" "node list option list"
  | FunctionDeclaration "node option"
  | OtherNode SyntaxKind "node list"

text \<open>
  A source file with the fields the source reads; \<open>containsDecorators\<close> is
  \<^verbatim>\<open>transformFlags & TransformFlags.ContainsDecorators\<close>.
\<close>

record sourceFile =
  fileName :: string
  isDeclarationFile :: bool
  hasNoDefaultLib :: bool
  containsDecorators :: bool
  statements :: "node list"

text \<open>
  The source finds the file of a node with \<^verbatim>\<open>getSourceFileOfNode\<close>, which follows the
  \<^verbatim>\<open>parent\<close> links up to the node of kind \<^verbatim>\<open>SourceFile\<close>. The trees here have no parent
  links. The file of a node that the walk reaches is the file whose tree the walk is in, and
  it is passed down as the argument \<open>current\<close>; the file of a declaration that the type
  checker returns comes with the declaration (\<open>None\<close> when the parent chain ends without a
  source file).
\<close>

record declarationInfo =
  declarationNode :: node
  declarationSourceFile :: "sourceFile option"

record symbol =
  valueDeclaration :: "declarationInfo option"

record accessors =
  firstAccessor :: node
  secondAccessor :: "node option"
  setAccessor :: "node option"

text \<open>
  The functions of the compiler that \<^verbatim>\<open>sorting.ts\<close> calls and that live in other files
  (\<^verbatim>\<open>checker.getSymbolAtLocation\<close>, \<^verbatim>\<open>forEachChild\<close>, \<^verbatim>\<open>hasModifier\<close>,
  \<^verbatim>\<open>getAllAccessorDeclarations\<close>) are parameters of the model: every theorem holds for all of
  them. \<open>forEachChild env n\<close> is the list of children that \<^verbatim>\<open>forEachChild(n, visit)\<close> hands to
  a callback that never returns a truthy value, in order.
\<close>

record api =
  getSymbolAtLocation :: "node \<Rightarrow> symbol option"
  forEachChild :: "node \<Rightarrow> node list"
  hasModifier :: "node \<Rightarrow> ModifierFlags \<Rightarrow> bool"
  getAllAccessorDeclarations :: "node list \<Rightarrow> node \<Rightarrow> accessors"

text \<open>
  The walk of the source is recursive without a bound: \<^verbatim>\<open>checkCallExpression\<close> enters the
  body of the called function, which may call itself. The model bounds the depth of the
  recursion by a number \<open>n\<close> and answers \<open>OutOfFuel\<close> where the bound is reached. \<open>TypeError\<close>
  is the exception of the runtime where the source reads a property of \<^verbatim>\<open>undefined\<close>.
\<close>

datatype error = TypeError | OutOfFuel

section \<open>The dependency map\<close>

text \<open>
  \<^verbatim>\<open>dependencyMap\<close> is an object without prototype used as a map from file names to arrays
  of file names: an association list in the order of insertion.
\<close>

type_synonym depmap = "(string \<times> string list) list"

definition addDependency :: "string \<Rightarrow> string \<Rightarrow> depmap \<Rightarrow> depmap" where
  "addDependency file dependent dependencyMap =
     (if file = dependent then dependencyMap
      else (case map_of dependencyMap file of
              None \<Rightarrow> AList.update file [dependent] dependencyMap
            | Some list \<Rightarrow>
                if dependent \<notin> set list
                then AList.update file (list @ [dependent]) dependencyMap
                else dependencyMap))"

definition checkDependencyAtLocation :: "api \<Rightarrow> sourceFile \<Rightarrow> node \<Rightarrow> depmap \<Rightarrow> depmap" where
  "checkDependencyAtLocation env current node dependencyMap =
     (case getSymbolAtLocation env node of
        None \<Rightarrow> dependencyMap
      | Some symbol \<Rightarrow>
          (case valueDeclaration symbol of
             None \<Rightarrow> dependencyMap
           | Some declaration \<Rightarrow>
               (case declarationSourceFile declaration of
                  None \<Rightarrow> dependencyMap
                | Some sourceFile \<Rightarrow>
                    if isDeclarationFile sourceFile then dependencyMap
                    else addDependency (fileName current) (fileName sourceFile) dependencyMap)))"

text \<open>A loop over an array whose body may fail: the first error ends it.\<close>

fun forEach :: "('a \<Rightarrow> 's \<Rightarrow> error + 's) \<Rightarrow> 'a list \<Rightarrow> 's \<Rightarrow> error + 's" where
  "forEach f [] s = Inr s"
| "forEach f (x # xs) s = (case f x s of Inl e \<Rightarrow> Inl e | Inr s' \<Rightarrow> forEach f xs s')"

definition andThen :: "error + 's \<Rightarrow> ('s \<Rightarrow> error + 's) \<Rightarrow> error + 's" where
  "andThen r f = (case r of Inl e \<Rightarrow> Inl e | Inr s \<Rightarrow> f s)"

definition checkInheriting ::
  "api \<Rightarrow> sourceFile \<Rightarrow> (HeritageToken \<times> node list option) list option \<Rightarrow> depmap \<Rightarrow> depmap" where
  "checkInheriting env current heritageClauses dependencyMap =
     (case heritageClauses of
        None \<Rightarrow> dependencyMap
      | Some clauses \<Rightarrow>
          (case find (\<lambda>clause. fst clause = ExtendsKeyword) clauses of
             None \<Rightarrow> dependencyMap
           | Some heritageClause \<Rightarrow>
               (case snd heritageClause of
                  None \<Rightarrow> dependencyMap
                | Some superClasses \<Rightarrow>
                    fold (checkDependencyAtLocation env current) superClasses dependencyMap)))"

text \<open>The fields \<^verbatim>\<open>decorators\<close> and \<^verbatim>\<open>parameters\<close> of a class member.\<close>

definition decoratorsOf :: "node \<Rightarrow> node list option" where
  "decoratorsOf member =
     (case member of
        PropertyDeclaration decorators _ \<Rightarrow> decorators
      | MethodDeclaration decorators _ _ \<Rightarrow> decorators
      | GetAccessor decorators \<Rightarrow> decorators
      | SetAccessor decorators _ \<Rightarrow> decorators
      | ClassDeclaration decorators _ _ \<Rightarrow> decorators
      | _ \<Rightarrow> None)"

definition parametersOf :: "node \<Rightarrow> node list option list option" where
  "parametersOf member =
     (case member of
        MethodDeclaration _ parameters _ \<Rightarrow> Some parameters
      | SetAccessor _ parameters \<Rightarrow> Some parameters
      | _ \<Rightarrow> None)"

definition isAccessor :: "node \<Rightarrow> bool" where
  "isAccessor member = (case member of GetAccessor _ \<Rightarrow> True | SetAccessor _ _ \<Rightarrow> True | _ \<Rightarrow> False)"

definition isMethodDeclaration :: "node \<Rightarrow> bool" where
  "isMethodDeclaration member = (case member of MethodDeclaration _ _ _ \<Rightarrow> True | _ \<Rightarrow> False)"

text \<open>
  The first part of the body of the loop over the members in \<^verbatim>\<open>checkClassDecorators\<close>: the
  \<^verbatim>\<open>decorators\<close> and the \<^verbatim>\<open>functionLikeMember\<close> of a member, or \<open>None\<close> where the source
  goes on to the next member (an accessor that is not the first of its pair).
\<close>

definition memberDecorators ::
  "api \<Rightarrow> node list \<Rightarrow> node \<Rightarrow> (node list option \<times> node option) option" where
  "memberDecorators env members member =
     (if isAccessor member then
        (let accessors = getAllAccessorDeclarations env members member in
         if member \<noteq> firstAccessor accessors then None
         else Some (case (decoratorsOf (firstAccessor accessors), secondAccessor accessors) of
                      (None, Some second) \<Rightarrow> decoratorsOf second
                    | (first, _) \<Rightarrow> first,
                    setAccessor accessors))
      else Some (decoratorsOf member, if isMethodDeclaration member then Some member else None))"

definition isCodeBlockKind :: "SyntaxKind \<Rightarrow> bool" where
  "isCodeBlockKind k =
     (k \<in> {Block, IfStatement, DoStatement, WhileStatement, ForStatement, ForInStatement,
            ForOfStatement, ContinueStatement, BreakStatement, ReturnStatement, WithStatement,
            SwitchStatement, LabeledStatement, ThrowStatement, TryStatement, DebuggerStatement})"

text \<open>
  The functions of the source that call each other recursively are one function \<open>walk\<close> on
  the depth bound, with one constructor of \<open>call\<close> for each function of the source and its
  arguments. \<open>CheckCallee\<close> is the shared body of the cases
  \<^verbatim>\<open>PropertyAccessExpression\<close> and \<^verbatim>\<open>Identifier\<close> of the switch in \<^verbatim>\<open>checkCallExpression\<close>;
  \<open>Visit\<close> is the local function \<^verbatim>\<open>visit\<close> of \<^verbatim>\<open>checkCodeBlock\<close>. \<^verbatim>\<open>forEachChild\<close> visits
  nothing for an undefined node.
\<close>

datatype call =
    VisitStatement node bool
  | VisitModule "node option" bool
  | CheckStaticMember "node list option"
  | CheckClassDecorators "node list option" "node list option"
  | CheckDecorators "node list"
  | CheckExpression "node option"
  | CheckObjectLiteralExpression "node list"
  | CheckCallExpression node "node list option"
  | CheckCallee node
  | CheckClassInstantiation "node list option"
  | CheckCodeBlock "node option"
  | Visit node

primrec walk :: "nat \<Rightarrow> api \<Rightarrow> sourceFile \<Rightarrow> call \<Rightarrow> depmap \<Rightarrow> error + depmap" where
  "walk 0 env current c dm = Inl OutOfFuel"
| "walk (Suc n) env current c dm =
   (case c of
      VisitStatement statement hasDecorators \<Rightarrow>
        (case statement of
           ExpressionStatement expression \<Rightarrow>
             walk n env current (CheckExpression (Some expression)) dm
         | ClassDeclaration decorators heritageClauses members \<Rightarrow>
             andThen (walk n env current (CheckStaticMember members)
                        (checkInheriting env current heritageClauses dm))
               (\<lambda>dm. if hasDecorators
                      then walk n env current (CheckClassDecorators decorators members) dm
                      else Inr dm)
         | VariableStatement declarations \<Rightarrow>
             forEach (\<lambda>initializer. walk n env current (CheckExpression initializer))
               declarations dm
         | ImportEqualsDeclaration moduleReference \<Rightarrow>
             Inr (checkDependencyAtLocation env current moduleReference dm)
         | ModuleDeclaration body \<Rightarrow> walk n env current (VisitModule body hasDecorators) dm
         | OtherNode kind children \<Rightarrow>
             if isCodeBlockKind kind then walk n env current (CheckCodeBlock (Some statement)) dm
             else Inr dm
         | _ \<Rightarrow> Inr dm)
    | VisitModule body hasDecorators \<Rightarrow>
        (case body of
           None \<Rightarrow> Inl TypeError
         | Some b \<Rightarrow>
             (case b of
                ModuleDeclaration inner \<Rightarrow> walk n env current (VisitModule inner False) dm
              | ModuleBlock blockStatements \<Rightarrow>
                  forEach (\<lambda>statement dm.
                     if hasModifier env statement Ambient then Inr dm
                     else walk n env current (VisitStatement statement hasDecorators) dm)
                    blockStatements dm
              | _ \<Rightarrow> Inl TypeError))
    | CheckStaticMember members \<Rightarrow>
        (case members of
           None \<Rightarrow> Inr dm
         | Some ms \<Rightarrow>
             forEach (\<lambda>member dm.
                if \<not> hasModifier env member Static then Inr dm
                else (case member of
                        PropertyDeclaration _ initializer \<Rightarrow>
                          walk n env current (CheckExpression initializer) dm
                      | _ \<Rightarrow> Inr dm)) ms dm)
    | CheckClassDecorators classDecorators members \<Rightarrow>
        andThen (case classDecorators of
                   None \<Rightarrow> Inr dm
                 | Some ds \<Rightarrow> walk n env current (CheckDecorators ds) dm)
          (\<lambda>dm. case members of
             None \<Rightarrow> Inr dm
           | Some ms \<Rightarrow>
               forEach (\<lambda>member dm.
                  case memberDecorators env ms member of
                    None \<Rightarrow> Inr dm
                  | Some (decorators, functionLikeMember) \<Rightarrow>
                      andThen (case decorators of
                                 None \<Rightarrow> Inr dm
                               | Some ds \<Rightarrow> walk n env current (CheckDecorators ds) dm)
                        (\<lambda>dm. case functionLikeMember of
                           None \<Rightarrow> Inr dm
                         | Some f \<Rightarrow>
                             (case parametersOf f of
                                None \<Rightarrow> Inl TypeError
                              | Some parameters \<Rightarrow>
                                  forEach (\<lambda>parameterDecorators dm.
                                     case parameterDecorators of
                                       None \<Rightarrow> Inr dm
                                     | Some ds \<Rightarrow> walk n env current (CheckDecorators ds) dm)
                                    parameters dm))) ms dm)
    | CheckDecorators decorators \<Rightarrow>
        forEach (\<lambda>decorator. walk n env current (CheckExpression (Some decorator))) decorators dm
    | CheckExpression expression \<Rightarrow>
        (case expression of
           None \<Rightarrow> Inr dm
         | Some e \<Rightarrow>
             (case e of
                NewExpression callee arguments \<Rightarrow>
                  walk n env current (CheckCallExpression callee arguments) dm
              | CallExpression callee arguments \<Rightarrow>
                  walk n env current (CheckCallExpression callee (Some arguments)) dm
              | Identifier _ \<Rightarrow> Inr (checkDependencyAtLocation env current e dm)
              | PropertyAccessExpression _ _ \<Rightarrow> Inr (checkDependencyAtLocation env current e dm)
              | ObjectLiteralExpression properties \<Rightarrow>
                  walk n env current (CheckObjectLiteralExpression properties) dm
              | ElementAccessExpression object _ \<Rightarrow>
                  Inr (checkDependencyAtLocation env current object dm)
              | ArrayLiteralExpression elements \<Rightarrow>
                  forEach (\<lambda>element. walk n env current (CheckExpression (Some element)))
                    elements dm
              | TemplateExpression templateSpans \<Rightarrow>
                  forEach (\<lambda>span. walk n env current (CheckExpression (Some span)))
                    templateSpans dm
              | ParenthesizedExpression inner \<Rightarrow>
                  walk n env current (CheckExpression (Some inner)) dm
              | BinaryExpression left right \<Rightarrow>
                  andThen (walk n env current (CheckExpression (Some left)) dm)
                    (walk n env current (CheckExpression (Some right)))
              | PostfixUnaryExpression operand \<Rightarrow>
                  walk n env current (CheckExpression (Some operand)) dm
              | PrefixUnaryExpression operand \<Rightarrow>
                  walk n env current (CheckExpression (Some operand)) dm
              | DeleteExpression inner \<Rightarrow> walk n env current (CheckExpression (Some inner)) dm
              | _ \<Rightarrow> Inr dm))
    | CheckObjectLiteralExpression properties \<Rightarrow>
        forEach (\<lambda>element dm.
           case element of
             PropertyAssignment initializer \<Rightarrow>
               walk n env current (CheckExpression (Some initializer)) dm
           | ShorthandPropertyAssignment objectAssignmentInitializer \<Rightarrow>
               walk n env current (CheckExpression objectAssignmentInitializer) dm
           | SpreadAssignment expression \<Rightarrow>
               walk n env current (CheckExpression (Some expression)) dm
           | _ \<Rightarrow> Inr dm) properties dm
    | CheckCallExpression expression arguments \<Rightarrow>
        (case arguments of
           None \<Rightarrow> Inl TypeError
         | Some args \<Rightarrow>
             andThen (forEach (\<lambda>argument. walk n env current (CheckExpression (Some argument)))
                        args dm)
               (\<lambda>dm. case expression of
                        FunctionExpression body \<Rightarrow> walk n env current (CheckCodeBlock (Some body)) dm
                      | PropertyAccessExpression _ _ \<Rightarrow> walk n env current (CheckCallee expression) dm
                      | Identifier _ \<Rightarrow> walk n env current (CheckCallee expression) dm
                      | _ \<Rightarrow> Inr dm))
    | CheckCallee expression \<Rightarrow>
        (case getSymbolAtLocation env expression of
           None \<Rightarrow> Inr dm
         | Some symbol \<Rightarrow>
             (case valueDeclaration symbol of
                None \<Rightarrow> Inr dm
              | Some declaration \<Rightarrow>
                  (case declarationSourceFile declaration of
                     None \<Rightarrow> Inr dm
                   | Some sourceFile \<Rightarrow>
                       if isDeclarationFile sourceFile then Inr dm
                       else
                         (case declarationNode declaration of
                            FunctionDeclaration body \<Rightarrow>
                              walk n env sourceFile (CheckCodeBlock body)
                                (addDependency (fileName current) (fileName sourceFile) dm)
                          | MethodDeclaration _ _ body \<Rightarrow>
                              walk n env sourceFile (CheckCodeBlock body)
                                (addDependency (fileName current) (fileName sourceFile) dm)
                          | ClassDeclaration _ _ members \<Rightarrow>
                              walk n env sourceFile (CheckClassInstantiation members)
                                (addDependency (fileName current) (fileName sourceFile) dm)
                          | _ \<Rightarrow> Inr (addDependency (fileName current) (fileName sourceFile) dm)))))
    | CheckClassInstantiation members \<Rightarrow>
        (case members of
           None \<Rightarrow> Inr dm
         | Some ms \<Rightarrow>
             forEach (\<lambda>member dm.
                if hasModifier env member Static then Inr dm
                else (case member of
                        PropertyDeclaration _ initializer \<Rightarrow>
                          walk n env current (CheckExpression initializer) dm
                      | Constructor body \<Rightarrow> walk n env current (CheckCodeBlock body) dm
                      | _ \<Rightarrow> Inr dm)) ms dm)
    | CheckCodeBlock block \<Rightarrow>
        (case block of
           None \<Rightarrow> Inr dm
         | Some b \<Rightarrow> forEach (\<lambda>child. walk n env current (Visit child)) (forEachChild env b) dm)
    | Visit node \<Rightarrow>
        (case node of
           VariableStatement declarations \<Rightarrow>
             forEach (\<lambda>initializer. walk n env current (CheckExpression initializer))
               declarations dm
         | ExpressionStatement expression \<Rightarrow>
             walk n env current (CheckExpression (Some expression)) dm
         | _ \<Rightarrow> forEach (\<lambda>child. walk n env current (Visit child)) (forEachChild env node) dm))"

definition visitFile :: "nat \<Rightarrow> api \<Rightarrow> sourceFile \<Rightarrow> depmap \<Rightarrow> error + depmap" where
  "visitFile n env sourceFile dm =
     forEach (\<lambda>statement dm.
        if hasModifier env statement Ambient then Inr dm
        else walk n env sourceFile (VisitStatement statement (containsDecorators sourceFile)) dm)
       (statements sourceFile) dm"

definition buildDependencyMap :: "nat \<Rightarrow> api \<Rightarrow> sourceFile list \<Rightarrow> error + depmap" where
  "buildDependencyMap n env sourceFiles =
     forEach (\<lambda>sourceFile dm.
        if isDeclarationFile sourceFile then Inr dm else visitFile n env sourceFile dm)
       sourceFiles []"

section \<open>Weights and the sort\<close>

text \<open>
  \<^verbatim>\<open>pathWeightMap\<close> maps file names to numbers. The weights are small non-negative integers
  (at most the length of a path without repetition, or 10000), so they are exact in the
  floating-point numbers of the runtime and are integers here.
\<close>

type_synonym weightmap = "string \<rightharpoonup> int"

text \<open>
  \<^verbatim>\<open>updatePathWeight\<close> returns the circular reference it found, or \<^verbatim>\<open>null\<close> (here \<open>None\<close>),
  and updates \<^verbatim>\<open>pathWeightMap\<close>, which is returned with the result.
  \<open>updatePathWeight_for\<close> is the loop \<^verbatim>\<open>for (let parentPath of list)\<close> over the rest of the
  list. The recursion ends because a recursive call adds to \<open>references\<close> a name that is
  not yet in it and that the dependency map holds.
\<close>

function updatePathWeight ::
    "depmap \<Rightarrow> string \<Rightarrow> int \<Rightarrow> string list \<Rightarrow> weightmap \<Rightarrow> string list option \<times> weightmap"
  and updatePathWeight_for ::
    "depmap \<Rightarrow> string list \<Rightarrow> int \<Rightarrow> string list \<Rightarrow> weightmap \<Rightarrow> string list option \<times> weightmap"
where
  "updatePathWeight dm path weight references pwm =
     (if (case pwm path of None \<Rightarrow> True | Some old \<Rightarrow> old < weight)
      then (case map_of dm path of
              None \<Rightarrow> (None, pwm(path \<mapsto> weight))
            | Some list \<Rightarrow> updatePathWeight_for dm list weight references (pwm(path \<mapsto> weight)))
      else (None, pwm))"
| "updatePathWeight_for dm [] weight references pwm = (None, pwm)"
| "updatePathWeight_for dm (parentPath # rest) weight references pwm =
     (if parentPath \<in> set references then (Some (references @ [parentPath]), pwm)
      else (case updatePathWeight dm parentPath (weight + 1) (references @ [parentPath]) pwm of
              (Some result, pwm') \<Rightarrow> (Some result, pwm')
            | (None, pwm') \<Rightarrow> updatePathWeight_for dm rest weight references pwm'))"
  by pat_completeness auto

termination
proof (relation "inv_image (less_than <*lex*> less_than)
     (\<lambda>x. case x of
        Inl (dm, path, weight, references, pwm) \<Rightarrow>
          (card (set (concat (map snd dm)) - set references),
           (case map_of dm path of None \<Rightarrow> 0 | Some list \<Rightarrow> Suc (length list)))
      | Inr (dm, list, weight, references, pwm) \<Rightarrow>
          (card ((set (concat (map snd dm)) \<union> set list) - set references), length list))",
    goal_cases)
  case 1
  show ?case by (intro wf_inv_image wf_lex_prod wf_less_than)
next
  case (2 dm path weight references pwm list)
  from 2(2) have "(path, list) \<in> set dm" by (rule map_of_SomeD)
  then have "set list \<subseteq> set (concat (map snd dm))" by force
  then have "set (concat (map snd dm)) \<union> set list = set (concat (map snd dm))" by blast
  then show ?case using 2(2) by simp
next
  case (3 dm parentPath rest weight references pwm)
  have "set (concat (map snd dm)) - set (references @ [parentPath])
        \<subset> (set (concat (map snd dm)) \<union> set (parentPath # rest)) - set references"
    using 3 by auto
  then have "card (set (concat (map snd dm)) - set (references @ [parentPath]))
        < card ((set (concat (map snd dm)) \<union> set (parentPath # rest)) - set references)"
    by (intro psubset_card_mono) auto
  then show ?case by simp
next
  case (4 dm parentPath rest weight references pwm x y)
  have "card ((set (concat (map snd dm)) \<union> set rest) - set references)
        \<le> card ((set (concat (map snd dm)) \<union> set (parentPath # rest)) - set references)"
    by (intro card_mono) auto
  then show ?case by auto
qed

text \<open>
  The loop over \<^verbatim>\<open>sourceFiles\<close> in \<^verbatim>\<open>sortOnDependency\<close> that fills \<^verbatim>\<open>pathWeightMap\<close>: a
  declaration file gets the weight 10000; the first circular reference ends the loop.
\<close>

fun sortOnDependency_for ::
    "depmap \<Rightarrow> sourceFile list \<Rightarrow> weightmap \<Rightarrow> string list option \<times> weightmap" where
  "sortOnDependency_for dm [] pwm = (None, pwm)"
| "sortOnDependency_for dm (sourceFile # rest) pwm =
     (if isDeclarationFile sourceFile
      then sortOnDependency_for dm rest (pwm(fileName sourceFile \<mapsto> 10000))
      else (case updatePathWeight dm (fileName sourceFile) 0 [fileName sourceFile] pwm of
              (Some references, pwm') \<Rightarrow> (Some references, pwm')
            | (None, pwm') \<Rightarrow> sortOnDependency_for dm rest pwm'))"

text \<open>
  The comparison function handed to \<^verbatim>\<open>sourceFiles.sort\<close>:
  \<^verbatim>\<open>pathWeightMap[b.fileName] - pathWeightMap[a.fileName]\<close>, which is \<^verbatim>\<open>NaN\<close> (here \<open>None\<close>) when
  one of the two weights is undefined.
\<close>

definition compareWeight :: "weightmap \<Rightarrow> sourceFile \<Rightarrow> sourceFile \<Rightarrow> int option" where
  "compareWeight pwm a b =
     (case (pwm (fileName b), pwm (fileName a)) of
        (Some wb, Some wa) \<Rightarrow> Some (wb - wa)
      | _ \<Rightarrow> None)"

text \<open>
  \<^verbatim>\<open>Array.prototype.sort\<close> belongs to the runtime, not to the repository. It is modelled after
  the language standard: the comparison of two elements is the number the comparison
  function returns, with \<^verbatim>\<open>NaN\<close> read as 0, and the sort is stable (required by the standard
  since ECMAScript 2019): a stable insertion sort.
\<close>

definition sortCompare :: "('a \<Rightarrow> 'a \<Rightarrow> int option) \<Rightarrow> 'a \<Rightarrow> 'a \<Rightarrow> int" where
  "sortCompare comparefn x y = (case comparefn x y of None \<Rightarrow> 0 | Some v \<Rightarrow> v)"

fun insertSorted :: "('a \<Rightarrow> 'a \<Rightarrow> int option) \<Rightarrow> 'a \<Rightarrow> 'a list \<Rightarrow> 'a list" where
  "insertSorted comparefn x [] = [x]"
| "insertSorted comparefn x (y # ys) =
     (if sortCompare comparefn x y \<le> 0 then x # y # ys else y # insertSorted comparefn x ys)"

definition arraySort :: "('a \<Rightarrow> 'a \<Rightarrow> int option) \<Rightarrow> 'a list \<Rightarrow> 'a list" where
  "arraySort comparefn xs = foldr (insertSorted comparefn) xs []"

record SortingResult =
  sortedFileNames :: "string list"
  circularReferences :: "string list"

text \<open>
  The two arrays of the program that \<^verbatim>\<open>sortOnDependency\<close> changes in place:
  \<^verbatim>\<open>program.getSourceFiles()\<close> and \<^verbatim>\<open>program.getRootFileNames()\<close>.
\<close>

record program =
  sourceFiles :: "sourceFile list"
  rootFileNames :: "string list"

definition sortOnDependency :: "depmap \<Rightarrow> program \<Rightarrow> SortingResult \<times> program" where
  "sortOnDependency dm prog =
     (case sortOnDependency_for dm (sourceFiles prog) Map.empty of
        (found, pwm) \<Rightarrow>
          (let circular = (case found of None \<Rightarrow> [] | Some references \<Rightarrow> references)
           in if length circular = 0
              then (let sorted = arraySort (compareWeight pwm) (sourceFiles prog)
                    in (\<lparr>sortedFileNames =
                           map fileName (filter (\<lambda>sourceFile. \<not> hasNoDefaultLib sourceFile) sorted),
                         circularReferences = circular\<rparr>,
                        \<lparr>sourceFiles = sorted, rootFileNames = map fileName sorted\<rparr>))
              else (\<lparr>sortedFileNames = [], circularReferences = circular\<rparr>, prog)))"

definition reorderSourceFiles :: "nat \<Rightarrow> api \<Rightarrow> program \<Rightarrow> error + SortingResult \<times> program" where
  "reorderSourceFiles n env prog =
     (case buildDependencyMap n env (sourceFiles prog) of
        Inl e \<Rightarrow> Inl e
      | Inr dm \<Rightarrow> Inr (sortOnDependency dm prog))"

section \<open>Notions used in the statements\<close>

text \<open>
  \<open>isEdge dm a b\<close>: the dependency map records that file \<open>a\<close> depends on file \<open>b\<close>.
  \<open>dependsOn dm\<close> is the relation of these edges.
\<close>

definition isEdge :: "depmap \<Rightarrow> string \<Rightarrow> string \<Rightarrow> bool" where
  "isEdge dm a b = (case map_of dm a of None \<Rightarrow> False | Some list \<Rightarrow> b \<in> set list)"

definition dependsOn :: "depmap \<Rightarrow> (string \<times> string) set" where
  "dependsOn dm = {(a, b). isEdge dm a b}"

text \<open>
  \<open>weightsClosed dm S pwm\<close>: every file with a weight that is not in \<open>S\<close> (the files whose
  dependencies are still being visited) has passed its weight plus one on to each of its
  dependencies. \<open>weightsGrow\<close>: no weight is lost or lowered.
\<close>

definition weightsClosed :: "depmap \<Rightarrow> string set \<Rightarrow> weightmap \<Rightarrow> bool" where
  "weightsClosed dm S pwm =
     (\<forall>p v x. pwm p = Some v \<longrightarrow> p \<notin> S \<longrightarrow> isEdge dm p x \<longrightarrow>
        (\<exists>v'. pwm x = Some v' \<and> v + 1 \<le> v'))"

definition weightsGrow :: "weightmap \<Rightarrow> weightmap \<Rightarrow> bool" where
  "weightsGrow pwm pwm' = (\<forall>p v. pwm p = Some v \<longrightarrow> (\<exists>v'. pwm' p = Some v' \<and> v \<le> v'))"

text \<open>
  \<open>declarationFilesIsolated dm files\<close>: no edge of the dependency map starts or ends at the
  name of a declaration file. \<open>dependenciesFirst dm names\<close>: in the list \<open>names\<close>, whenever
  the name at position \<open>j\<close> depends, directly or through other files, on the name at position
  \<open>i\<close>, then \<open>i\<close> comes before \<open>j\<close>.
\<close>

definition declarationFilesIsolated :: "depmap \<Rightarrow> sourceFile list \<Rightarrow> bool" where
  "declarationFilesIsolated dm files =
     (\<forall>f \<in> set files. isDeclarationFile f \<longrightarrow>
        (\<forall>x. \<not> isEdge dm (fileName f) x \<and> \<not> isEdge dm x (fileName f)))"

definition dependenciesFirst :: "depmap \<Rightarrow> string list \<Rightarrow> bool" where
  "dependenciesFirst dm names =
     (\<forall>i j. i < length names \<longrightarrow> j < length names \<longrightarrow>
        (names ! j, names ! i) \<in> (dependsOn dm)\<^sup>+ \<longrightarrow> i < j)"

text \<open>
  \<open>recordedPairs dm\<close>: all pairs (dependent, dependency) that the dependency map holds, in
  order. \<open>resolvedFiles env\<close>: the source files of the declarations that the type checker
  returns. \<open>knownFile\<close>: a source file of the program or of such a declaration.
\<close>

definition recordedPairs :: "depmap \<Rightarrow> (string \<times> string) list" where
  "recordedPairs dm = concat (map (\<lambda>(file, list). map (Pair file) list) dm)"

definition resolvedFiles :: "api \<Rightarrow> sourceFile set" where
  "resolvedFiles env =
     {sf. \<exists>node sym d. getSymbolAtLocation env node = Some sym \<and>
            valueDeclaration sym = Some d \<and> declarationSourceFile d = Some sf}"

definition knownFile :: "api \<Rightarrow> sourceFile list \<Rightarrow> sourceFile \<Rightarrow> bool" where
  "knownFile env files sf = (sf \<in> set files \<or> sf \<in> resolvedFiles env)"

text \<open>
  \<open>wellFormedProgram env files\<close>: the files of the program have different names, and the
  source file of every declaration that the type checker returns is a file of the program.
\<close>

definition wellFormedProgram :: "api \<Rightarrow> sourceFile list \<Rightarrow> bool" where
  "wellFormedProgram env files =
     (distinct (map fileName files) \<and> resolvedFiles env \<subseteq> set files)"











text \<open>
  \<open>weightsBelow N pwm\<close>: every weight of a name in \<open>N\<close> is below the number of names in
  \<open>N\<close>. \<open>nonDeclarationNames files\<close>: the names of the files that are no declaration files.
\<close>

definition weightsBelow :: "string set \<Rightarrow> weightmap \<Rightarrow> bool" where
  "weightsBelow N pwm = (\<forall>p v. pwm p = Some v \<longrightarrow> p \<in> N \<longrightarrow> v < int (card N))"

definition nonDeclarationNames :: "sourceFile list \<Rightarrow> string set" where
  "nonDeclarationNames files = fileName ` {f \<in> set files. \<not> isDeclarationFile f}"

section \<open>Example programs\<close>

text \<open>
  \<^verbatim>\<open>a.ts\<close> is \<^verbatim>\<open>f(libValue); f();\<close>: it calls twice the function \<^verbatim>\<open>f\<close> that \<^verbatim>\<open>b.ts\<close> declares
  as \<^verbatim>\<open>function f() { cValue; }\<close>; \<^verbatim>\<open>c.ts\<close> is \<^verbatim>\<open>var cValue; cValue;\<close> and so refers to its own
  declaration; \<^verbatim>\<open>u.ts\<close> is empty; the declaration file \<^verbatim>\<open>lib.d.ts\<close> declares \<^verbatim>\<open>libValue\<close>.
  The children of a node are those of an \<open>OtherNode\<close>; no node has a modifier.
\<close>

definition fileA :: sourceFile where
  "fileA = \<lparr>fileName = ''a.ts'', isDeclarationFile = False, hasNoDefaultLib = False,
     containsDecorators = False,
     statements = [ExpressionStatement (CallExpression (Identifier ''f'') [Identifier ''libValue'']),
                   ExpressionStatement (CallExpression (Identifier ''f'') [])]\<rparr>"

definition fileB :: sourceFile where
  "fileB = \<lparr>fileName = ''b.ts'', isDeclarationFile = False, hasNoDefaultLib = False,
     containsDecorators = False,
     statements = [FunctionDeclaration
        (Some (OtherNode Block [ExpressionStatement (Identifier ''cValue'')]))]\<rparr>"

definition fileC :: sourceFile where
  "fileC = \<lparr>fileName = ''c.ts'', isDeclarationFile = False, hasNoDefaultLib = False,
     containsDecorators = False,
     statements = [VariableStatement [None], ExpressionStatement (Identifier ''cValue'')]\<rparr>"

definition fileU :: sourceFile where
  "fileU = \<lparr>fileName = ''u.ts'', isDeclarationFile = False, hasNoDefaultLib = False,
     containsDecorators = False, statements = []\<rparr>"

definition fileLib :: sourceFile where
  "fileLib = \<lparr>fileName = ''lib.d.ts'', isDeclarationFile = True, hasNoDefaultLib = True,
     containsDecorators = False, statements = []\<rparr>"

definition envABC :: api where
  "envABC = \<lparr>getSymbolAtLocation = (\<lambda>n.
        if n = Identifier ''f'' then
          Some \<lparr>valueDeclaration = Some \<lparr>declarationNode = hd (statements fileB),
                                         declarationSourceFile = Some fileB\<rparr>\<rparr>
        else if n = Identifier ''cValue'' then
          Some \<lparr>valueDeclaration = Some \<lparr>declarationNode = hd (statements fileC),
                                         declarationSourceFile = Some fileC\<rparr>\<rparr>
        else if n = Identifier ''libValue'' then
          Some \<lparr>valueDeclaration = Some \<lparr>declarationNode = OtherNode OtherKind [],
                                         declarationSourceFile = Some fileLib\<rparr>\<rparr>
        else None),
     forEachChild = (\<lambda>n. case n of OtherNode k children \<Rightarrow> children | _ \<Rightarrow> []),
     hasModifier = (\<lambda>n flag. False),
     getAllAccessorDeclarations = (\<lambda>members member.
        \<lparr>firstAccessor = member, secondAccessor = None, setAccessor = None\<rparr>)\<rparr>"

definition progABC :: program where
  "progABC = \<lparr>sourceFiles = [fileLib, fileA, fileB, fileC],
               rootFileNames = [''lib.d.ts'', ''a.ts'', ''b.ts'', ''c.ts'']\<rparr>"

definition progUABC :: program where
  "progUABC = \<lparr>sourceFiles = [fileU, fileA, fileB, fileC],
               rootFileNames = [''u.ts'', ''a.ts'', ''b.ts'', ''c.ts'']\<rparr>"

text \<open>
  \<^verbatim>\<open>x.ts\<close> and \<^verbatim>\<open>main.ts\<close> evaluate \<^verbatim>\<open>new Y()\<close> at their top level; \<^verbatim>\<open>y.ts\<close> declares the
  class \<^verbatim>\<open>Y\<close>, whose constructor has the body \<^verbatim>\<open>xValue;\<close>, and \<^verbatim>\<open>x.ts\<close> declares \<^verbatim>\<open>xValue\<close>.
\<close>

definition fileX :: sourceFile where
  "fileX = \<lparr>fileName = ''x.ts'', isDeclarationFile = False, hasNoDefaultLib = False,
     containsDecorators = False,
     statements = [ExpressionStatement (NewExpression (Identifier ''Y'') (Some []))]\<rparr>"

definition fileY :: sourceFile where
  "fileY = \<lparr>fileName = ''y.ts'', isDeclarationFile = False, hasNoDefaultLib = False,
     containsDecorators = False,
     statements = [ClassDeclaration None None
        (Some [Constructor (Some (OtherNode Block [ExpressionStatement (Identifier ''xValue'')]))])]\<rparr>"

definition fileMain :: sourceFile where
  "fileMain = \<lparr>fileName = ''main.ts'', isDeclarationFile = False, hasNoDefaultLib = False,
     containsDecorators = False,
     statements = [ExpressionStatement (NewExpression (Identifier ''Y'') (Some []))]\<rparr>"

definition envXY :: api where
  "envXY = \<lparr>getSymbolAtLocation = (\<lambda>n.
        if n = Identifier ''Y'' then
          Some \<lparr>valueDeclaration = Some \<lparr>declarationNode = hd (statements fileY),
                                         declarationSourceFile = Some fileY\<rparr>\<rparr>
        else if n = Identifier ''xValue'' then
          Some \<lparr>valueDeclaration = Some \<lparr>declarationNode = OtherNode OtherKind [],
                                         declarationSourceFile = Some fileX\<rparr>\<rparr>
        else None),
     forEachChild = (\<lambda>n. case n of OtherNode k children \<Rightarrow> children | _ \<Rightarrow> []),
     hasModifier = (\<lambda>n flag. False),
     getAllAccessorDeclarations = (\<lambda>members member.
        \<lparr>firstAccessor = member, secondAccessor = None, setAccessor = None\<rparr>)\<rparr>"

definition progXY :: program where
  "progXY = \<lparr>sourceFiles = [fileX, fileY], rootFileNames = [''x.ts'', ''y.ts'']\<rparr>"

definition progMXY :: program where
  "progMXY = \<lparr>sourceFiles = [fileMain, fileX, fileY],
               rootFileNames = [''main.ts'', ''x.ts'', ''y.ts'']\<rparr>"

text \<open>
  The files \<^verbatim>\<open>a.ts\<close>, \<^verbatim>\<open>b.ts\<close>, \<^verbatim>\<open>c.ts\<close>, \<^verbatim>\<open>x.ts\<close> and \<^verbatim>\<open>y.ts\<close> in one program; the type
  checker resolves the names of both groups.
\<close>

definition envABCXY :: api where
  "envABCXY = envABC\<lparr>getSymbolAtLocation := (\<lambda>n.
      case getSymbolAtLocation envABC n of
        None \<Rightarrow> getSymbolAtLocation envXY n
      | Some symbol \<Rightarrow> Some symbol)\<rparr>"

definition progABCXY :: program where
  "progABCXY = \<lparr>sourceFiles = [fileLib, fileA, fileB, fileC, fileX, fileY],
                 rootFileNames = [''lib.d.ts'', ''a.ts'', ''b.ts'', ''c.ts'', ''x.ts'', ''y.ts'']\<rparr>"

text \<open>
  \<^verbatim>\<open>b.ts\<close> with an overloaded function: \<^verbatim>\<open>function f(): void; function f() { cValue; }\<close>.
  The value declaration of the symbol of \<^verbatim>\<open>f\<close> is the first declaration, the signature
  without a body.
\<close>

definition fileBOverloaded :: sourceFile where
  "fileBOverloaded = \<lparr>fileName = ''b.ts'', isDeclarationFile = False, hasNoDefaultLib = False,
     containsDecorators = False,
     statements = [FunctionDeclaration None,
        FunctionDeclaration
          (Some (OtherNode Block [ExpressionStatement (Identifier ''cValue'')]))]\<rparr>"

definition envOverloaded :: api where
  "envOverloaded = envABC\<lparr>getSymbolAtLocation := (\<lambda>n.
      if n = Identifier ''f'' then
        Some \<lparr>valueDeclaration = Some \<lparr>declarationNode = hd (statements fileBOverloaded),
                                       declarationSourceFile = Some fileBOverloaded\<rparr>\<rparr>
      else getSymbolAtLocation envABC n)\<rparr>"

definition progOverloaded :: program where
  "progOverloaded = \<lparr>sourceFiles = [fileLib, fileA, fileBOverloaded, fileC],
                      rootFileNames = [''lib.d.ts'', ''a.ts'', ''b.ts'', ''c.ts'']\<rparr>"

text \<open>
  A chain of \<open>k + 1\<close> files: the file number \<open>i\<close> is the expression statement that names the
  file number \<open>i + 1\<close>, and the last file is empty. The type checker resolves an identifier
  to a declaration in the file whose name has the length of the identifier.
\<close>

definition unitName :: "nat \<Rightarrow> string" where
  "unitName i = ''u'' @ replicate i (CHR ''x'') @ ''.ts''"

definition chainFile :: "nat \<Rightarrow> nat \<Rightarrow> sourceFile" where
  "chainFile k i = \<lparr>fileName = unitName i, isDeclarationFile = False, hasNoDefaultLib = False,
     containsDecorators = False,
     statements = (if i < k then [ExpressionStatement (Identifier (unitName (Suc i)))] else [])\<rparr>"

definition chainFiles :: "nat \<Rightarrow> sourceFile list" where
  "chainFiles k = map (chainFile k) [0..<Suc k]"

definition chainEnv :: "nat \<Rightarrow> api" where
  "chainEnv k = \<lparr>getSymbolAtLocation = (\<lambda>n.
        case n of
          Identifier name \<Rightarrow>
            Some \<lparr>valueDeclaration = Some \<lparr>declarationNode = OtherNode OtherKind [],
               declarationSourceFile = Some (chainFile k (length name - 4))\<rparr>\<rparr>
        | _ \<Rightarrow> None),
     forEachChild = (\<lambda>n. case n of OtherNode kind children \<Rightarrow> children | _ \<Rightarrow> []),
     hasModifier = (\<lambda>n flag. False),
     getAllAccessorDeclarations = (\<lambda>members member.
        \<lparr>firstAccessor = member, secondAccessor = None, setAccessor = None\<rparr>)\<rparr>"

definition chainMap :: "nat \<Rightarrow> depmap" where
  "chainMap k = map (\<lambda>i. (unitName i, [unitName (Suc i)])) [0..<k]"

section \<open>What the walk keeps\<close>

text \<open>
  Every change of the dependency map is a call of \<open>addDependency\<close> with the names of two
  files that are no declaration files: a property of dependency maps that these calls keep
  is kept by the whole walk.
\<close>

lemma forEach_keeps:
  assumes "forEach f xs dm = Inr dm'" and "P dm"
    and "\<And>x d d'. x \<in> set xs \<Longrightarrow> P d \<Longrightarrow> f x d = Inr d' \<Longrightarrow> P d'"
  shows "P dm'"
  using assms
proof (induction xs arbitrary: dm)
  case Nil
  then show ?case by simp
next
  case (Cons x xs)
  from Cons.prems(1) obtain d where d: "f x dm = Inr d" "forEach f xs d = Inr dm'"
    by (auto split: sum.splits)
  from Cons.prems(3)[OF _ Cons.prems(2) d(1)] have "P d" by simp
  show ?case
  proof (rule Cons.IH[OF d(2) \<open>P d\<close>])
    fix y e e'
    assume "y \<in> set xs" "P e" "f y e = Inr e'"
    then show "P e'" using Cons.prems(3)[of y e e'] by simp
  qed
qed

lemma andThen_Inr_iff: "andThen r g = Inr dm' \<longleftrightarrow> (\<exists>d. r = Inr d \<and> g d = Inr dm')"
  by (cases r) (simp_all add: andThen_def)

lemma all_or_neq: "(\<forall>x. Q x \<or> y \<noteq> x) \<longleftrightarrow> Q y"
  by auto

lemma checkDependencyAtLocation_keeps:
  assumes step: "\<And>s t dm. P dm \<Longrightarrow> G s \<Longrightarrow> G t \<Longrightarrow> P (addDependency (fileName s) (fileName t) dm)"
    and res: "\<And>node sym d sf. getSymbolAtLocation env node = Some sym \<Longrightarrow>
        valueDeclaration sym = Some d \<Longrightarrow> declarationSourceFile d = Some sf \<Longrightarrow>
        \<not> isDeclarationFile sf \<Longrightarrow> G sf"
    and "G current" "P dm"
  shows "P (checkDependencyAtLocation env current node dm)"
  using assms(3,4) step res
  by (auto simp: checkDependencyAtLocation_def split: option.splits)

lemma checkInheriting_keeps:
  assumes step: "\<And>s t dm. P dm \<Longrightarrow> G s \<Longrightarrow> G t \<Longrightarrow> P (addDependency (fileName s) (fileName t) dm)"
    and res: "\<And>node sym d sf. getSymbolAtLocation env node = Some sym \<Longrightarrow>
        valueDeclaration sym = Some d \<Longrightarrow> declarationSourceFile d = Some sf \<Longrightarrow>
        \<not> isDeclarationFile sf \<Longrightarrow> G sf"
    and "G current" "P dm"
  shows "P (checkInheriting env current heritageClauses dm)"
proof -
  have "P (fold (checkDependencyAtLocation env current) xs d)" if "P d" for xs d
    using that
  proof (induction xs arbitrary: d)
    case Nil
    then show ?case by simp
  next
    case (Cons x xs)
    from checkDependencyAtLocation_keeps[of P G env current d x, OF step res assms(3) Cons.prems]
    have "P (checkDependencyAtLocation env current x d)" .
    from Cons.IH[OF this] show ?case by simp
  qed
  with assms(4) show ?thesis
    by (simp add: checkInheriting_def split: option.splits)
qed

lemma walk_VisitStatement:
  "walk (Suc n) env current (VisitStatement statement hasDecorators) dm =
        (case statement of
           ExpressionStatement expression \<Rightarrow>
             walk n env current (CheckExpression (Some expression)) dm
         | ClassDeclaration decorators heritageClauses members \<Rightarrow>
             andThen (walk n env current (CheckStaticMember members)
                        (checkInheriting env current heritageClauses dm))
               (\<lambda>dm. if hasDecorators
                      then walk n env current (CheckClassDecorators decorators members) dm
                      else Inr dm)
         | VariableStatement declarations \<Rightarrow>
             forEach (\<lambda>initializer. walk n env current (CheckExpression initializer))
               declarations dm
         | ImportEqualsDeclaration moduleReference \<Rightarrow>
             Inr (checkDependencyAtLocation env current moduleReference dm)
         | ModuleDeclaration body \<Rightarrow> walk n env current (VisitModule body hasDecorators) dm
         | OtherNode kind children \<Rightarrow>
             if isCodeBlockKind kind then walk n env current (CheckCodeBlock (Some statement)) dm
             else Inr dm
         | _ \<Rightarrow> Inr dm)"
  by simp

lemma walk_VisitModule:
  "walk (Suc n) env current (VisitModule body hasDecorators) dm =
        (case body of
           None \<Rightarrow> Inl TypeError
         | Some b \<Rightarrow>
             (case b of
                ModuleDeclaration inner \<Rightarrow> walk n env current (VisitModule inner False) dm
              | ModuleBlock blockStatements \<Rightarrow>
                  forEach (\<lambda>statement dm.
                     if hasModifier env statement Ambient then Inr dm
                     else walk n env current (VisitStatement statement hasDecorators) dm)
                    blockStatements dm
              | _ \<Rightarrow> Inl TypeError))"
  by simp

lemma walk_CheckStaticMember:
  "walk (Suc n) env current (CheckStaticMember members) dm =
        (case members of
           None \<Rightarrow> Inr dm
         | Some ms \<Rightarrow>
             forEach (\<lambda>member dm.
                if \<not> hasModifier env member Static then Inr dm
                else (case member of
                        PropertyDeclaration _ initializer \<Rightarrow>
                          walk n env current (CheckExpression initializer) dm
                      | _ \<Rightarrow> Inr dm)) ms dm)"
  by simp

lemma walk_CheckClassDecorators:
  "walk (Suc n) env current (CheckClassDecorators classDecorators members) dm =
        andThen (case classDecorators of
                   None \<Rightarrow> Inr dm
                 | Some ds \<Rightarrow> walk n env current (CheckDecorators ds) dm)
          (\<lambda>dm. case members of
             None \<Rightarrow> Inr dm
           | Some ms \<Rightarrow>
               forEach (\<lambda>member dm.
                  case memberDecorators env ms member of
                    None \<Rightarrow> Inr dm
                  | Some (decorators, functionLikeMember) \<Rightarrow>
                      andThen (case decorators of
                                 None \<Rightarrow> Inr dm
                               | Some ds \<Rightarrow> walk n env current (CheckDecorators ds) dm)
                        (\<lambda>dm. case functionLikeMember of
                           None \<Rightarrow> Inr dm
                         | Some f \<Rightarrow>
                             (case parametersOf f of
                                None \<Rightarrow> Inl TypeError
                              | Some parameters \<Rightarrow>
                                  forEach (\<lambda>parameterDecorators dm.
                                     case parameterDecorators of
                                       None \<Rightarrow> Inr dm
                                     | Some ds \<Rightarrow> walk n env current (CheckDecorators ds) dm)
                                    parameters dm))) ms dm)"
  by simp

lemma walk_CheckDecorators:
  "walk (Suc n) env current (CheckDecorators decorators) dm =
        forEach (\<lambda>decorator. walk n env current (CheckExpression (Some decorator))) decorators dm"
  by simp

lemma walk_CheckExpression:
  "walk (Suc n) env current (CheckExpression expression) dm =
        (case expression of
           None \<Rightarrow> Inr dm
         | Some e \<Rightarrow>
             (case e of
                NewExpression callee arguments \<Rightarrow>
                  walk n env current (CheckCallExpression callee arguments) dm
              | CallExpression callee arguments \<Rightarrow>
                  walk n env current (CheckCallExpression callee (Some arguments)) dm
              | Identifier _ \<Rightarrow> Inr (checkDependencyAtLocation env current e dm)
              | PropertyAccessExpression _ _ \<Rightarrow> Inr (checkDependencyAtLocation env current e dm)
              | ObjectLiteralExpression properties \<Rightarrow>
                  walk n env current (CheckObjectLiteralExpression properties) dm
              | ElementAccessExpression object _ \<Rightarrow>
                  Inr (checkDependencyAtLocation env current object dm)
              | ArrayLiteralExpression elements \<Rightarrow>
                  forEach (\<lambda>element. walk n env current (CheckExpression (Some element)))
                    elements dm
              | TemplateExpression templateSpans \<Rightarrow>
                  forEach (\<lambda>span. walk n env current (CheckExpression (Some span)))
                    templateSpans dm
              | ParenthesizedExpression inner \<Rightarrow>
                  walk n env current (CheckExpression (Some inner)) dm
              | BinaryExpression left right \<Rightarrow>
                  andThen (walk n env current (CheckExpression (Some left)) dm)
                    (walk n env current (CheckExpression (Some right)))
              | PostfixUnaryExpression operand \<Rightarrow>
                  walk n env current (CheckExpression (Some operand)) dm
              | PrefixUnaryExpression operand \<Rightarrow>
                  walk n env current (CheckExpression (Some operand)) dm
              | DeleteExpression inner \<Rightarrow> walk n env current (CheckExpression (Some inner)) dm
              | _ \<Rightarrow> Inr dm))"
  by simp

lemma walk_CheckObjectLiteralExpression:
  "walk (Suc n) env current (CheckObjectLiteralExpression properties) dm =
        forEach (\<lambda>element dm.
           case element of
             PropertyAssignment initializer \<Rightarrow>
               walk n env current (CheckExpression (Some initializer)) dm
           | ShorthandPropertyAssignment objectAssignmentInitializer \<Rightarrow>
               walk n env current (CheckExpression objectAssignmentInitializer) dm
           | SpreadAssignment expression \<Rightarrow>
               walk n env current (CheckExpression (Some expression)) dm
           | _ \<Rightarrow> Inr dm) properties dm"
  by simp

lemma walk_CheckCallExpression:
  "walk (Suc n) env current (CheckCallExpression expression arguments) dm =
        (case arguments of
           None \<Rightarrow> Inl TypeError
         | Some args \<Rightarrow>
             andThen (forEach (\<lambda>argument. walk n env current (CheckExpression (Some argument)))
                        args dm)
               (\<lambda>dm. case expression of
                        FunctionExpression body \<Rightarrow> walk n env current (CheckCodeBlock (Some body)) dm
                      | PropertyAccessExpression _ _ \<Rightarrow> walk n env current (CheckCallee expression) dm
                      | Identifier _ \<Rightarrow> walk n env current (CheckCallee expression) dm
                      | _ \<Rightarrow> Inr dm))"
  by simp

lemma walk_CheckCallee:
  "walk (Suc n) env current (CheckCallee expression) dm =
        (case getSymbolAtLocation env expression of
           None \<Rightarrow> Inr dm
         | Some symbol \<Rightarrow>
             (case valueDeclaration symbol of
                None \<Rightarrow> Inr dm
              | Some declaration \<Rightarrow>
                  (case declarationSourceFile declaration of
                     None \<Rightarrow> Inr dm
                   | Some sourceFile \<Rightarrow>
                       if isDeclarationFile sourceFile then Inr dm
                       else
                         (case declarationNode declaration of
                            FunctionDeclaration body \<Rightarrow>
                              walk n env sourceFile (CheckCodeBlock body)
                                (addDependency (fileName current) (fileName sourceFile) dm)
                          | MethodDeclaration _ _ body \<Rightarrow>
                              walk n env sourceFile (CheckCodeBlock body)
                                (addDependency (fileName current) (fileName sourceFile) dm)
                          | ClassDeclaration _ _ members \<Rightarrow>
                              walk n env sourceFile (CheckClassInstantiation members)
                                (addDependency (fileName current) (fileName sourceFile) dm)
                          | _ \<Rightarrow> Inr (addDependency (fileName current) (fileName sourceFile) dm)))))"
  by simp

lemma walk_CheckClassInstantiation:
  "walk (Suc n) env current (CheckClassInstantiation members) dm =
        (case members of
           None \<Rightarrow> Inr dm
         | Some ms \<Rightarrow>
             forEach (\<lambda>member dm.
                if hasModifier env member Static then Inr dm
                else (case member of
                        PropertyDeclaration _ initializer \<Rightarrow>
                          walk n env current (CheckExpression initializer) dm
                      | Constructor body \<Rightarrow> walk n env current (CheckCodeBlock body) dm
                      | _ \<Rightarrow> Inr dm)) ms dm)"
  by simp

lemma walk_CheckCodeBlock:
  "walk (Suc n) env current (CheckCodeBlock block) dm =
        (case block of
           None \<Rightarrow> Inr dm
         | Some b \<Rightarrow> forEach (\<lambda>child. walk n env current (Visit child)) (forEachChild env b) dm)"
  by simp

lemma walk_Visit:
  "walk (Suc n) env current (Visit node) dm =
        (case node of
           VariableStatement declarations \<Rightarrow>
             forEach (\<lambda>initializer. walk n env current (CheckExpression initializer))
               declarations dm
         | ExpressionStatement expression \<Rightarrow>
             walk n env current (CheckExpression (Some expression)) dm
         | _ \<Rightarrow> forEach (\<lambda>child. walk n env current (Visit child)) (forEachChild env node) dm)"
  by simp

lemmas walk_Suc = walk_VisitStatement walk_VisitModule walk_CheckStaticMember
  walk_CheckClassDecorators walk_CheckDecorators walk_CheckExpression
  walk_CheckObjectLiteralExpression walk_CheckCallExpression walk_CheckCallee
  walk_CheckClassInstantiation walk_CheckCodeBlock walk_Visit

declare walk.simps(2) [simp del]

lemma walk_keeps:
  assumes step: "\<And>s t dm. P dm \<Longrightarrow> G s \<Longrightarrow> G t \<Longrightarrow> P (addDependency (fileName s) (fileName t) dm)"
    and res: "\<And>node sym d sf. getSymbolAtLocation env node = Some sym \<Longrightarrow>
        valueDeclaration sym = Some d \<Longrightarrow> declarationSourceFile d = Some sf \<Longrightarrow>
        \<not> isDeclarationFile sf \<Longrightarrow> G sf"
  shows "G current \<Longrightarrow> P dm \<Longrightarrow> walk n env current c dm = Inr dm' \<Longrightarrow> P dm'"
proof (induction n arbitrary: current c dm dm')
  case 0
  then show ?case by simp
next
  case (Suc n)
  have IH: "walk n env cur c dm = Inr dm' \<Longrightarrow> G cur \<longrightarrow> P dm \<longrightarrow> P dm'" for cur c dm dm'
    using Suc.IH[of cur dm c dm'] by blast
  note cd = checkDependencyAtLocation_keeps[of P G env, OF step res]
  note ci = checkInheriting_keeps[of P G env, OF step res]
  note fk = forEach_keeps[where P = P]
  show ?case
  proof (cases c)
    case (VisitStatement statement hasDecorators)
    with Suc.prems show ?thesis
      by (cases statement)
        (auto simp: walk_VisitStatement andThen_Inr_iff intro: cd ci dest!: IH elim!: fk
           split: if_splits)
  next
    case (VisitModule body hasDecorators)
    with Suc.prems show ?thesis
      by (auto simp: walk_VisitModule dest!: IH elim!: fk
           split: if_splits option.splits node.splits)
  next
    case (CheckStaticMember members)
    with Suc.prems show ?thesis
      by (auto simp: walk_CheckStaticMember dest!: IH elim!: fk
           split: if_splits option.splits node.splits)
  next
    case (CheckClassDecorators classDecorators members)
    with Suc.prems show ?thesis
      by (auto simp: walk_CheckClassDecorators andThen_Inr_iff all_conj_distrib all_or_neq
           dest!: IH elim!: fk split: option.split_asm prod.split_asm)
  next
    case (CheckDecorators decorators)
    with Suc.prems show ?thesis
      by (auto simp: walk_CheckDecorators dest!: IH elim!: fk)
  next
    case (CheckExpression expression)
    with Suc.prems show ?thesis
      by (auto simp: walk_CheckExpression andThen_Inr_iff intro: cd dest!: IH elim!: fk
           split: option.splits node.splits)
  next
    case (CheckObjectLiteralExpression properties)
    with Suc.prems show ?thesis
      by (auto simp: walk_CheckObjectLiteralExpression dest!: IH elim!: fk
           split: node.splits)
  next
    case (CheckCallExpression expression arguments)
    with Suc.prems obtain args d where
      fe: "forEach (\<lambda>argument. walk n env current (CheckExpression (Some argument))) args dm = Inr d"
      and rest: "(case expression of
                    FunctionExpression body \<Rightarrow> walk n env current (CheckCodeBlock (Some body)) d
                  | PropertyAccessExpression _ _ \<Rightarrow> walk n env current (CheckCallee expression) d
                  | Identifier _ \<Rightarrow> walk n env current (CheckCallee expression) d
                  | _ \<Rightarrow> Inr d) = Inr dm'"
      by (auto simp: walk_CheckCallExpression andThen_Inr_iff split: option.splits)
    have "P d"
      by (rule fk[OF fe Suc.prems(2)]) (use IH Suc.prems(1) in blast)
    with rest Suc.prems(1) show ?thesis
      by (cases expression) (auto dest!: IH)
  next
    case (CheckCallee expression)
    with Suc.prems show ?thesis
      by (auto simp: walk_CheckCallee intro: step res dest!: IH
           split: option.splits if_splits node.splits)
  next
    case (CheckClassInstantiation members)
    with Suc.prems show ?thesis
      by (auto simp: walk_CheckClassInstantiation dest!: IH elim!: fk
           split: if_splits option.splits node.splits)
  next
    case (CheckCodeBlock block)
    with Suc.prems show ?thesis
      by (auto simp: walk_CheckCodeBlock dest!: IH elim!: fk split: option.splits)
  next
    case (Visit node)
    with Suc.prems show ?thesis
      by (auto simp: walk_Visit dest!: IH elim!: fk split: node.splits)
  qed
qed

lemma visitFile_keeps:
  assumes step: "\<And>s t dm. P dm \<Longrightarrow> G s \<Longrightarrow> G t \<Longrightarrow> P (addDependency (fileName s) (fileName t) dm)"
    and res: "\<And>node sym d sf. getSymbolAtLocation env node = Some sym \<Longrightarrow>
        valueDeclaration sym = Some d \<Longrightarrow> declarationSourceFile d = Some sf \<Longrightarrow>
        \<not> isDeclarationFile sf \<Longrightarrow> G sf"
    and "G sourceFile" "P dm" "visitFile n env sourceFile dm = Inr dm'"
  shows "P dm'"
proof (rule forEach_keeps[where P = P, OF assms(5)[unfolded visitFile_def] assms(4)])
  fix x d d'
  assume "P d"
    "(if hasModifier env x Ambient then Inr d
      else walk n env sourceFile (VisitStatement x (containsDecorators sourceFile)) d) = Inr d'"
  then show "P d'"
    using walk_keeps[of P G env sourceFile d n _ d', OF step res assms(3)]
    by (auto split: if_splits)
qed

lemma buildDependencyMap_keeps:
  assumes step: "\<And>s t dm. P dm \<Longrightarrow> G s \<Longrightarrow> G t \<Longrightarrow> P (addDependency (fileName s) (fileName t) dm)"
    and res: "\<And>node sym d sf. getSymbolAtLocation env node = Some sym \<Longrightarrow>
        valueDeclaration sym = Some d \<Longrightarrow> declarationSourceFile d = Some sf \<Longrightarrow>
        \<not> isDeclarationFile sf \<Longrightarrow> G sf"
    and files: "\<And>f. f \<in> set files \<Longrightarrow> \<not> isDeclarationFile f \<Longrightarrow> G f"
    and "P []" "buildDependencyMap n env files = Inr dm"
  shows "P dm"
proof (rule forEach_keeps[where P = P, OF assms(5)[unfolded buildDependencyMap_def] assms(4)])
  fix x d d'
  assume "x \<in> set files" "P d"
    "(if isDeclarationFile x then Inr d else visitFile n env x d) = Inr d'"
  then show "P d'"
    using visitFile_keeps[of P G env x d n d', OF step res] files[of x]
    by (auto split: if_splits)
qed

lemma map_of_addDependency:
  "map_of (addDependency file dependent dm) =
     (if file = dependent then map_of dm
      else (case map_of dm file of
              None \<Rightarrow> (map_of dm)(file \<mapsto> [dependent])
            | Some list \<Rightarrow> if dependent \<in> set list then map_of dm
                           else (map_of dm)(file \<mapsto> list @ [dependent])))"
  by (simp add: addDependency_def update_conv' split: option.splits)

lemma isEdge_addDependency:
  "isEdge (addDependency file dependent dm) a b \<longleftrightarrow>
     isEdge dm a b \<or> (a = file \<and> b = dependent \<and> file \<noteq> dependent)"
  by (auto simp: isEdge_def map_of_addDependency split: option.splits if_splits)

lemma distinct_keys_addDependency:
  "distinct (map fst (addDependency file dependent dm)) = distinct (map fst dm)"
  by (simp add: addDependency_def update_keys split: option.splits)

lemma recordedPairs_fst:
  "(a, b) \<in> set (recordedPairs dm) \<Longrightarrow> a \<in> fst ` set dm"
  by (force simp: recordedPairs_def)

lemma distinct_recordedPairs_set:
  "distinct (map fst dm) \<Longrightarrow> (\<And>k l. (k, l) \<in> set dm \<Longrightarrow> distinct l) \<Longrightarrow>
   distinct (recordedPairs dm)"
proof (induction dm)
  case Nil
  show ?case by (simp add: recordedPairs_def)
next
  case (Cons p dm)
  obtain k l where p: "p = (k, l)" by (cases p)
  have k: "k \<notin> fst ` set dm" using Cons.prems(1) p by simp
  have d: "distinct (map fst dm)" using Cons.prems(1) by simp
  have l: "distinct l" using Cons.prems(2)[of k l] p by simp
  have r: "distinct (recordedPairs dm)"
  proof (rule Cons.IH[OF d])
    fix k' l' assume "(k', l') \<in> set dm"
    then show "distinct l'" using Cons.prems(2)[of k' l'] by simp
  qed
  have e: "recordedPairs (p # dm) = map (Pair k) l @ recordedPairs dm"
    unfolding p recordedPairs_def by simp
  have i: "distinct (map (Pair k) l)"
    using l by (simp add: distinct_map inj_on_def)
  have "x \<notin> set (recordedPairs dm)" if "x \<in> set (map (Pair k) l)" for x
  proof
    assume x: "x \<in> set (recordedPairs dm)"
    from that obtain b where "x = (k, b)" by auto
    with x have "k \<in> fst ` set dm" using recordedPairs_fst[of k b dm] by simp
    with k show False by simp
  qed
  then have "set (map (Pair k) l) \<inter> set (recordedPairs dm) = {}" by blast
  with e i r show ?case by (simp only: distinct_append)
qed

lemma distinct_recordedPairs:
  assumes "distinct (map fst dm)" "\<forall>file list. map_of dm file = Some list \<longrightarrow> distinct list"
  shows "distinct (recordedPairs dm)"
proof (rule distinct_recordedPairs_set[OF assms(1)])
  fix k l assume "(k, l) \<in> set dm"
  with assms(1) have "map_of dm k = Some l" by (rule map_of_is_SomeI)
  with assms(2) show "distinct l" by blast
qed

text \<open>
  The endpoints of every edge are names of files that are known and no declaration files; in
  a well-formed program no edge starts or ends at a declaration file.
\<close>

lemma built_edges_known:
  assumes "buildDependencyMap n env files = Inr dm" and "isEdge dm a b"
  shows "(\<exists>s. knownFile env files s \<and> \<not> isDeclarationFile s \<and> fileName s = a) \<and>
         (\<exists>t. knownFile env files t \<and> \<not> isDeclarationFile t \<and> fileName t = b)"
proof -
  let ?G = "\<lambda>s. knownFile env files s \<and> \<not> isDeclarationFile s"
  let ?P = "\<lambda>dm. \<forall>a b. isEdge dm a b \<longrightarrow> (\<exists>s. ?G s \<and> fileName s = a) \<and> (\<exists>t. ?G t \<and> fileName t = b)"
  have "?P dm"
  proof (rule buildDependencyMap_keeps[where P = ?P and G = ?G, OF _ _ _ _ assms(1)])
    show "?P []" by (simp add: isEdge_def)
  next
    fix s t :: sourceFile and dm :: depmap
    assume "?P dm" "?G s" "?G t"
    then show "?P (addDependency (fileName s) (fileName t) dm)"
      unfolding isEdge_addDependency by blast
  next
    fix node sym d sf
    assume "getSymbolAtLocation env node = Some sym" "valueDeclaration sym = Some d"
      "declarationSourceFile d = Some sf" "\<not> isDeclarationFile sf"
    then show "?G sf" by (auto simp: knownFile_def resolvedFiles_def)
  next
    fix f assume "f \<in> set files" "\<not> isDeclarationFile f"
    then show "?G f" by (simp add: knownFile_def)
  qed
  with assms(2) show ?thesis by blast
qed

lemma built_declarationFilesIsolated:
  assumes "buildDependencyMap n env files = Inr dm" and "wellFormedProgram env files"
  shows "declarationFilesIsolated dm files"
  unfolding declarationFilesIsolated_def
proof (intro ballI impI allI)
  fix f x
  assume f: "f \<in> set files" "isDeclarationFile f"
  have k: "s \<in> set files" if "knownFile env files s" for s
    using that assms(2) by (auto simp: knownFile_def wellFormedProgram_def)
  have d: "distinct (map fileName files)" using assms(2) by (simp add: wellFormedProgram_def)
  have no: "fileName s \<noteq> fileName f" if "knownFile env files s" "\<not> isDeclarationFile s" for s
  proof
    assume "fileName s = fileName f"
    with d k[OF that(1)] f(1) have "s = f" by (meson distinct_map inj_onD)
    with that(2) f(2) show False by simp
  qed
  show "\<not> isEdge dm (fileName f) x \<and> \<not> isEdge dm x (fileName f)"
    using built_edges_known[OF assms(1)] no by metis
qed













section \<open>More fuel gives the same dependency map\<close>

text \<open>
  The fuel bounds the depth of the calls of the builder. A walk that ends within its fuel ends
  with the same map in any larger fuel, so the maps of the statements below do not depend on
  the fuel that produced them.
\<close>

lemma forEach_mono:
  assumes "forEach f xs dm = Inr dm'"
    and "\<And>x d d'. x \<in> set xs \<Longrightarrow> f x d = Inr d' \<Longrightarrow> g x d = Inr d'"
  shows "forEach g xs dm = Inr dm'"
  using assms
proof (induction xs arbitrary: dm)
  case Nil
  then show ?case by simp
next
  case (Cons x xs)
  from Cons.prems(1) obtain d where d: "f x dm = Inr d" "forEach f xs d = Inr dm'"
    by (auto split: sum.splits)
  from Cons.prems(2)[of x dm d] d(1) have "g x dm = Inr d" by simp
  moreover have "forEach g xs d = Inr dm'"
  proof (rule Cons.IH[OF d(2)])
    fix y e e' assume "y \<in> set xs" "f y e = Inr e'"
    then show "g y e = Inr e'" using Cons.prems(2)[of y e e'] by simp
  qed
  ultimately show ?case by simp
qed

lemma andThen_mono:
  assumes "andThen r f = Inr dm'"
    and "\<And>d. r = Inr d \<Longrightarrow> r' = Inr d"
    and "\<And>d. r = Inr d \<Longrightarrow> f d = Inr dm' \<Longrightarrow> g d = Inr dm'"
  shows "andThen r' g = Inr dm'"
  using assms by (cases r) (auto simp: andThen_def)

lemma walk_more_fuel:
  "walk n env current c dm = Inr dm' \<Longrightarrow> walk (Suc n) env current c dm = Inr dm'"
proof (induction n arbitrary: current c dm dm')
  case 0
  then show ?case by simp
next
  case (Suc n)
  note IH = Suc.IH
  have fe: "forEach g xs d = Inr d'"
    if "forEach f xs d = Inr d'" "\<And>x e e'. f x e = Inr e' \<Longrightarrow> g x e = Inr e'"
    for f g :: "'a \<Rightarrow> depmap \<Rightarrow> error + depmap" and xs d d'
    using that by (auto intro: forEach_mono)
  show ?case
  proof (cases c)
    case (VisitStatement statement hasDecorators)
    with Suc.prems show ?thesis
      by (cases statement)
        (auto simp: walk_VisitStatement[of "Suc n"] walk_VisitStatement[of n] andThen_Inr_iff
           intro!: IH elim!: fe split: if_splits)
  next
    case (VisitModule body hasDecorators)
    show ?thesis
      using Suc.prems unfolding VisitModule
      apply (subst (asm) walk_VisitModule)
      apply (subst walk_VisitModule)
      apply (cases body)
       apply simp
      subgoal for b
        by (cases b) (auto intro: IH elim!: fe split: if_splits)
      done
  next
    case (CheckStaticMember members)
    with Suc.prems show ?thesis
      by (auto simp: walk_CheckStaticMember[of "Suc n"] walk_CheckStaticMember[of n]
           intro!: IH elim!: fe split: if_splits option.splits node.splits)
  next
    case (CheckClassDecorators classDecorators members)
    show ?thesis
      using Suc.prems unfolding CheckClassDecorators
      apply (subst (asm) walk_CheckClassDecorators)
      apply (subst walk_CheckClassDecorators)
      apply (erule andThen_mono)
      subgoal by (cases classDecorators) (auto intro: IH)
      apply (cases members)
       apply simp
      apply (simp only: option.case)
      apply (erule fe)
      apply (auto split: option.splits prod.splits elim!: andThen_mono fe intro!: IH)
      done
  next
    case (CheckDecorators decorators)
    with Suc.prems show ?thesis
      by (auto simp: walk_CheckDecorators[of "Suc n"] walk_CheckDecorators[of n]
          intro!: IH elim!: fe)
  next
    case (CheckExpression expression)
    show ?thesis
      using Suc.prems unfolding CheckExpression
      apply (subst (asm) walk_CheckExpression)
      apply (subst walk_CheckExpression)
      apply (cases expression)
       apply simp
      subgoal for e
        by (cases e) (auto intro!: IH elim!: fe andThen_mono)
      done
  next
    case (CheckObjectLiteralExpression properties)
    with Suc.prems show ?thesis
      by (auto simp: walk_CheckObjectLiteralExpression[of "Suc n"]
           walk_CheckObjectLiteralExpression[of n]
           intro!: IH elim!: fe split: node.splits)
  next
    case (CheckCallExpression expression arguments)
    with Suc.prems show ?thesis
      by (cases arguments; cases expression)
        (auto simp: walk_CheckCallExpression[of "Suc n"] walk_CheckCallExpression[of n]
           andThen_Inr_iff intro!: IH elim!: fe)
  next
    case (CheckCallee expression)
    show ?thesis
      using Suc.prems unfolding CheckCallee
      apply (subst (asm) walk_CheckCallee)
      apply (subst walk_CheckCallee)
      apply (cases "getSymbolAtLocation env expression")
       apply simp
      subgoal for symbol
        apply (cases "valueDeclaration symbol")
         apply simp
        subgoal for decl
          apply (cases "declarationSourceFile decl")
           apply simp
          subgoal for sf
            apply (cases "isDeclarationFile sf")
             apply simp
            apply (cases "declarationNode decl")
                                apply (auto intro!: IH)
            done
          done
        done
      done
  next
    case (CheckClassInstantiation members)
    with Suc.prems show ?thesis
      by (auto simp: walk_CheckClassInstantiation[of "Suc n"] walk_CheckClassInstantiation[of n]
           intro!: IH elim!: fe split: if_splits option.splits node.splits)
  next
    case (CheckCodeBlock block)
    with Suc.prems show ?thesis
      by (auto simp: walk_CheckCodeBlock[of "Suc n"] walk_CheckCodeBlock[of n]
          intro!: IH elim!: fe split: option.splits)
  next
    case (Visit node)
    with Suc.prems show ?thesis
      by (auto simp: walk_Visit[of "Suc n"] walk_Visit[of n]
          intro!: IH elim!: fe split: node.splits)
  qed
qed

lemma walk_fuel_mono:
  "walk n env current c dm = Inr dm' \<Longrightarrow> n \<le> m \<Longrightarrow> walk m env current c dm = Inr dm'"
proof (induction m)
  case 0
  then show ?case by simp
next
  case (Suc m)
  show ?case
  proof (cases "n = Suc m")
    case True
    with Suc.prems show ?thesis by simp
  next
    case False
    with Suc.prems have "n \<le> m" by simp
    with Suc have "walk m env current c dm = Inr dm'" by blast
    then show ?thesis by (rule walk_more_fuel)
  qed
qed

lemma visitFile_fuel_mono:
  assumes "visitFile n env sourceFile dm = Inr dm'" and "n \<le> m"
  shows "visitFile m env sourceFile dm = Inr dm'"
  using assms(1) unfolding visitFile_def
  by (rule forEach_mono) (auto split: if_splits intro: walk_fuel_mono[OF _ assms(2)])

lemma buildDependencyMap_fuel_mono:
  assumes "buildDependencyMap n env files = Inr dm" and "n \<le> m"
  shows "buildDependencyMap m env files = Inr dm"
  using assms(1) unfolding buildDependencyMap_def
  by (rule forEach_mono) (auto split: if_splits intro: visitFile_fuel_mono[OF _ assms(2)])

lemma reorderSourceFiles_fuel_mono:
  assumes "reorderSourceFiles n env prog = Inr r" and "n \<le> m"
  shows "reorderSourceFiles m env prog = Inr r"
proof -
  from assms(1) obtain dm where dm: "buildDependencyMap n env (sourceFiles prog) = Inr dm"
    and r: "r = sortOnDependency dm prog"
    by (auto simp: reorderSourceFiles_def split: sum.splits)
  from buildDependencyMap_fuel_mono[OF dm assms(2)] r show ?thesis
    by (simp add: reorderSourceFiles_def)
qed

section \<open>The depth-first propagation of weights\<close>

declare updatePathWeight.simps [simp del]

text \<open>
  A reported circular reference extends the path \<open>references\<close> it was started with, follows
  edges of the dependency map, repeats no name before its last entry, and its last entry is
  one of the names before it.
\<close>

lemma updatePathWeight_Some_shape:
  "updatePathWeight dm path weight references pwm = (Some r, pwm') \<Longrightarrow>
     references \<noteq> [] \<Longrightarrow> last references = path \<Longrightarrow>
     successively (isEdge dm) references \<Longrightarrow> distinct references \<Longrightarrow>
     \<exists>ext x. r = references @ ext @ [x] \<and> x \<in> set (references @ ext) \<and>
        distinct (references @ ext) \<and> successively (isEdge dm) r"
  "updatePathWeight_for dm list weight references pwm = (Some r, pwm') \<Longrightarrow>
     references \<noteq> [] \<Longrightarrow> \<forall>p \<in> set list. isEdge dm (last references) p \<Longrightarrow>
     successively (isEdge dm) references \<Longrightarrow> distinct references \<Longrightarrow>
     \<exists>ext x. r = references @ ext @ [x] \<and> x \<in> set (references @ ext) \<and>
        distinct (references @ ext) \<and> successively (isEdge dm) r"
proof (induction dm path weight references pwm and dm list weight references pwm
    arbitrary: r pwm' and r pwm' rule: updatePathWeight_updatePathWeight_for.induct)
  case (1 dm path weight references pwm)
  from "1.prems"(1) obtain list where
    l: "map_of dm path = Some list" and
    f: "updatePathWeight_for dm list weight references (pwm(path \<mapsto> weight)) = (Some r, pwm')"
    and c: "(case pwm path of None \<Rightarrow> True | Some old \<Rightarrow> old < weight)"
    by (auto simp: updatePathWeight.simps split: if_splits option.splits)
  have "\<forall>p \<in> set list. isEdge dm (last references) p"
    using l "1.prems"(3) by (simp add: isEdge_def)
  from "1.IH"[OF c l f "1.prems"(2) this "1.prems"(4,5)] show ?case .
next
  case (2 dm weight references pwm)
  then show ?case by simp
next
  case (3 dm parentPath rest weight references pwm)
  show ?case
  proof (cases "parentPath \<in> set references")
    case True
    with "3.prems" have r: "r = references @ [parentPath]" by simp
    have "successively (isEdge dm) (references @ [parentPath])"
      using "3.prems" by (simp add: successively_append_iff)
    with r True "3.prems" show ?thesis by auto
  next
    case False
    obtain res pw where u: "updatePathWeight dm parentPath (weight + 1) (references @ [parentPath]) pwm = (res, pw)"
      by (cases "updatePathWeight dm parentPath (weight + 1) (references @ [parentPath]) pwm")
    show ?thesis
    proof (cases res)
      case None
      with u False "3.prems"(1) have "updatePathWeight_for dm rest weight references pw = (Some r, pwm')"
        by simp
      from "3.IH"(2)[OF False u[symmetric] None this "3.prems"(2)] "3.prems"(3,4,5)
      show ?thesis by simp
    next
      case (Some a)
      with u False "3.prems"(1) have a: "a = r" "pw = pwm'" by simp_all
      have s: "successively (isEdge dm) (references @ [parentPath])"
        using "3.prems" by (simp add: successively_append_iff)
      have d: "distinct (references @ [parentPath])" using False "3.prems" by simp
      from "3.IH"(1)[OF False u[unfolded Some a] _ _ s d]
      obtain ext x where "r = (references @ [parentPath]) @ ext @ [x]"
        "x \<in> set ((references @ [parentPath]) @ ext)" "distinct ((references @ [parentPath]) @ ext)"
        "successively (isEdge dm) r" by auto
      then show ?thesis 
        by (intro exI[of _ "parentPath # ext"] exI[of _ x]) simp
    qed
  qed
qed

text \<open>
  A propagation that ends without a circular reference leaves every file outside the current
  path closed, gives the file it was called for at least the weight it was called with, and
  neither loses nor lowers a weight.
\<close>

lemma weightsGrow_refl: "weightsGrow pwm pwm"
  by (simp add: weightsGrow_def)

lemma weightsGrow_trans: "weightsGrow a b \<Longrightarrow> weightsGrow b c \<Longrightarrow> weightsGrow a c"
  unfolding weightsGrow_def by (meson order_trans)

lemma weightsGrow_upd:
  "(case pwm path of None \<Rightarrow> True | Some old \<Rightarrow> old < weight) \<Longrightarrow> weightsGrow pwm (pwm(path \<mapsto> weight))"
  by (auto simp: weightsGrow_def split: option.splits)

lemma weightsClosed_upd:
  assumes "weightsClosed dm S pwm" "path \<notin> S"
    "(case pwm path of None \<Rightarrow> True | Some old \<Rightarrow> old < weight)"
  shows "weightsClosed dm (insert path S) (pwm(path \<mapsto> weight))"
  unfolding weightsClosed_def
proof (intro allI impI)
  fix p v x
  assume a: "(pwm(path \<mapsto> weight)) p = Some v" "p \<notin> insert path S" "isEdge dm p x"
  then have "pwm p = Some v" "p \<notin> S" by auto
  with assms(1) a(3) obtain v' where v': "pwm x = Some v'" "v + 1 \<le> v'"
    unfolding weightsClosed_def by blast
  show "\<exists>v'. (pwm(path \<mapsto> weight)) x = Some v' \<and> v + 1 \<le> v'"
    using v' assms(3) by (cases "x = path") auto
qed

lemma updatePathWeight_closed:
  "updatePathWeight dm path weight references pwm = (None, pwm') \<Longrightarrow>
     path \<in> set references \<Longrightarrow> weightsClosed dm (set references - {path}) pwm \<Longrightarrow>
     weightsClosed dm (set references - {path}) pwm' \<and>
     (\<exists>v. pwm' path = Some v \<and> weight \<le> v) \<and> weightsGrow pwm pwm' \<and>
     (\<forall>p \<in> set references - {path}. pwm' p = pwm p)"
  "updatePathWeight_for dm list weight references pwm = (None, pwm') \<Longrightarrow>
     weightsClosed dm (set references) pwm \<Longrightarrow>
     weightsClosed dm (set references) pwm' \<and>
     (\<forall>x \<in> set list. \<exists>v. pwm' x = Some v \<and> weight + 1 \<le> v) \<and> weightsGrow pwm pwm' \<and>
     (\<forall>p \<in> set references. pwm' p = pwm p)"
proof (induction dm path weight references pwm and dm list weight references pwm
    arbitrary: pwm' and pwm' rule: updatePathWeight_updatePathWeight_for.induct)
  case (1 dm path weight references pwm)
  show ?case
  proof (cases "case pwm path of None \<Rightarrow> True | Some old \<Rightarrow> old < weight")
    case False
    with "1.prems"(1) have "pwm' = pwm" by (simp add: updatePathWeight.simps)
    with False "1.prems" show ?thesis
      by (auto simp: weightsGrow_refl split: option.splits)
  next
    case c: True
    let ?S = "set references - {path}"
    let ?pwm1 = "pwm(path \<mapsto> weight)"
    have ins: "insert path ?S = set references" using "1.prems"(2) by auto
    have cl1: "weightsClosed dm (set references) ?pwm1"
      using weightsClosed_upd[OF "1.prems"(3) _ c] ins by simp
    have g1: "weightsGrow pwm ?pwm1" using c by (rule weightsGrow_upd)
    show ?thesis
    proof (cases "map_of dm path")
      case None
      with c "1.prems"(1) have e: "pwm' = ?pwm1" by (simp add: updatePathWeight.simps)
      have "weightsClosed dm ?S ?pwm1"
        unfolding weightsClosed_def
      proof (intro allI impI)
        fix p v x
        assume a: "?pwm1 p = Some v" "p \<notin> ?S" "isEdge dm p x"
        have "p \<noteq> path" using a(3) None by (auto simp: isEdge_def)
        with a(2) have "p \<notin> set references" by simp
        with cl1 a show "\<exists>v'. ?pwm1 x = Some v' \<and> v + 1 \<le> v'"
          unfolding weightsClosed_def by blast
      qed
      moreover have "\<forall>p \<in> ?S. ?pwm1 p = pwm p" by simp
      moreover have "\<exists>v. ?pwm1 path = Some v \<and> weight \<le> v" by simp
      ultimately show ?thesis unfolding e using g1 by blast
    next
      case (Some list)
      with c "1.prems"(1) have f: "updatePathWeight_for dm list weight references ?pwm1 = (None, pwm')"
        by (simp add: updatePathWeight.simps)
      from "1.IH"[OF c Some f cl1]
      have cl: "weightsClosed dm (set references) pwm'"
        and ge: "\<forall>x \<in> set list. \<exists>v. pwm' x = Some v \<and> weight + 1 \<le> v"
        and gr: "weightsGrow ?pwm1 pwm'"
        and same: "\<forall>p \<in> set references. pwm' p = ?pwm1 p" by blast+
      have pw: "pwm' path = Some weight" using same "1.prems"(2) by simp
      have "weightsClosed dm ?S pwm'"
        unfolding weightsClosed_def
      proof (intro allI impI)
        fix p v x
        assume a: "pwm' p = Some v" "p \<notin> ?S" "isEdge dm p x"
        show "\<exists>v'. pwm' x = Some v' \<and> v + 1 \<le> v'"
        proof (cases "p = path")
          case True
          with a(3) Some have "x \<in> set list" by (simp add: isEdge_def)
          with ge True a(1) pw show ?thesis by auto
        next
          case False
          with a(2) have "p \<notin> set references" by simp
          with cl a show ?thesis unfolding weightsClosed_def by blast
        qed
      qed
      moreover have "weightsGrow pwm pwm'" using g1 gr by (rule weightsGrow_trans)
      moreover have "\<forall>p \<in> ?S. pwm' p = pwm p" using same by simp
      moreover have "\<exists>v. pwm' path = Some v \<and> weight \<le> v" using pw by simp
      ultimately show ?thesis by blast
    qed
  qed
next
  case (2 dm weight references pwm)
  then show ?case by (simp add: weightsGrow_refl)
next
  case (3 dm parentPath rest weight references pwm)
  have notin: "parentPath \<notin> set references"
    using "3.prems"(1) by (auto split: if_splits)
  obtain res pw where u: "updatePathWeight dm parentPath (weight + 1) (references @ [parentPath]) pwm = (res, pw)"
    by (cases "updatePathWeight dm parentPath (weight + 1) (references @ [parentPath]) pwm")
  with notin "3.prems"(1) have res: "res = None"
    and f: "updatePathWeight_for dm rest weight references pw = (None, pwm')"
    by (auto split: option.splits)
  have s: "set (references @ [parentPath]) - {parentPath} = set references" using notin by auto
  from "3.IH"(1)[OF notin u[unfolded res]] "3.prems"(2) s
  have cl: "weightsClosed dm (set references) pw"
    and ge: "\<exists>v. pw parentPath = Some v \<and> weight + 1 \<le> v"
    and gr: "weightsGrow pwm pw"
    and same: "\<forall>p \<in> set references. pw p = pwm p" by auto
  from "3.IH"(2)[OF notin u[symmetric] res f cl]
  have cl': "weightsClosed dm (set references) pwm'"
    and ge': "\<forall>x \<in> set rest. \<exists>v. pwm' x = Some v \<and> weight + 1 \<le> v"
    and gr': "weightsGrow pw pwm'"
    and same': "\<forall>p \<in> set references. pwm' p = pw p" by auto
  from ge gr' have "\<exists>v. pwm' parentPath = Some v \<and> weight + 1 \<le> v"
    unfolding weightsGrow_def by (meson order_trans)
  with cl' ge' weightsGrow_trans[OF gr gr'] same same' show ?case by auto
qed

text \<open>A weight, once given, is never removed.\<close>

lemma updatePathWeight_dom:
  "updatePathWeight dm path weight references pwm = (res, pwm') \<Longrightarrow>
     (\<forall>p. pwm p \<noteq> None \<longrightarrow> pwm' p \<noteq> None) \<and> pwm' path \<noteq> None"
  "updatePathWeight_for dm list weight references pwm = (res, pwm') \<Longrightarrow>
     (\<forall>p. pwm p \<noteq> None \<longrightarrow> pwm' p \<noteq> None)"
proof (induction dm path weight references pwm and dm list weight references pwm
    arbitrary: res pwm' and res pwm' rule: updatePathWeight_updatePathWeight_for.induct)
  case (1 dm path weight references pwm)
  show ?case
  proof (cases "case pwm path of None \<Rightarrow> True | Some old \<Rightarrow> old < weight")
    case False
    with "1.prems" show ?thesis by (auto simp: updatePathWeight.simps split: option.splits)
  next
    case c: True
    show ?thesis
    proof (cases "map_of dm path")
      case None
      with c "1.prems" show ?thesis by (auto simp: updatePathWeight.simps)
    next
      case (Some list)
      with c "1.prems" have "updatePathWeight_for dm list weight references (pwm(path \<mapsto> weight)) = (res, pwm')"
        by (simp add: updatePathWeight.simps)
      from "1.IH"[OF c Some this] have "\<forall>p. (pwm(path \<mapsto> weight)) p \<noteq> None \<longrightarrow> pwm' p \<noteq> None" .
      then show ?thesis by (metis fun_upd_apply option.distinct(1))
    qed
  qed
next
  case (2 dm weight references pwm)
  then show ?case by simp
next
  case (3 dm parentPath rest weight references pwm)
  show ?case
  proof (cases "parentPath \<in> set references")
    case True
    with "3.prems" show ?thesis by simp
  next
    case False
    obtain r pw where u: "updatePathWeight dm parentPath (weight + 1) (references @ [parentPath]) pwm = (r, pw)"
      by (cases "updatePathWeight dm parentPath (weight + 1) (references @ [parentPath]) pwm")
    from "3.IH"(1)[OF False u] have m: "\<forall>p. pwm p \<noteq> None \<longrightarrow> pw p \<noteq> None" by blast
    show ?thesis
    proof (cases r)
      case None
      with u False "3.prems" have "updatePathWeight_for dm rest weight references pw = (res, pwm')"
        by simp
      from "3.IH"(2)[OF False u[symmetric] None this] m show ?thesis by blast
    next
      case (Some a)
      with u False "3.prems" have "pwm' = pw" by simp
      with m show ?thesis by simp
    qed
  qed
qed

text \<open>
  The weight that a propagation gives is the length of the current path minus one, and the
  path repeats no name: among names of a finite set that holds all dependencies, every
  weight is below the number of names.
\<close>

lemma weightsBelow_upd:
  assumes "weightsBelow N pwm" "finite N" "distinct references" "set references \<subseteq> N"
    "int (length references) = weight + 1"
  shows "weightsBelow N (pwm(path \<mapsto> weight))"
proof -
  have "length references = card (set references)"
    using assms(3) by (simp add: distinct_card)
  also have "\<dots> \<le> card N" using assms(2,4) by (rule card_mono)
  finally have "weight < int (card N)" using assms(5) by simp
  with assms(1) show ?thesis by (simp add: weightsBelow_def)
qed

lemma updatePathWeight_bound:
  "updatePathWeight dm path weight references pwm = (res, pwm') \<Longrightarrow>
     finite N \<Longrightarrow> \<forall>a b. isEdge dm a b \<longrightarrow> b \<in> N \<Longrightarrow>
     path \<in> set references \<Longrightarrow> distinct references \<Longrightarrow> set references \<subseteq> N \<Longrightarrow>
     int (length references) = weight + 1 \<Longrightarrow> weightsBelow N pwm \<Longrightarrow>
     weightsBelow N pwm' \<and> (\<forall>p. p \<notin> N \<longrightarrow> pwm' p = pwm p)"
  "updatePathWeight_for dm list weight references pwm = (res, pwm') \<Longrightarrow>
     finite N \<Longrightarrow> \<forall>a b. isEdge dm a b \<longrightarrow> b \<in> N \<Longrightarrow>
     set list \<subseteq> N \<Longrightarrow> distinct references \<Longrightarrow> set references \<subseteq> N \<Longrightarrow>
     int (length references) = weight + 1 \<Longrightarrow> weightsBelow N pwm \<Longrightarrow>
     weightsBelow N pwm' \<and> (\<forall>p. p \<notin> N \<longrightarrow> pwm' p = pwm p)"
proof (induction dm path weight references pwm and dm list weight references pwm
    arbitrary: res pwm' and res pwm' rule: updatePathWeight_updatePathWeight_for.induct)
  case (1 dm path weight references pwm)
  note fin = "1.prems"(2) and closed = "1.prems"(3)
  show ?case
  proof (cases "case pwm path of None \<Rightarrow> True | Some old \<Rightarrow> old < weight")
    case False
    with "1.prems"(1) have "pwm' = pwm" by (simp add: updatePathWeight.simps)
    with "1.prems"(8) show ?thesis by simp
  next
    case c: True
    let ?pwm1 = "pwm(path \<mapsto> weight)"
    have b1: "weightsBelow N ?pwm1"
      using "1.prems"(8) fin "1.prems"(5,6,7) by (rule weightsBelow_upd)
    have pN: "path \<in> N" using "1.prems"(4,6) by auto
    have u1: "\<forall>p. p \<notin> N \<longrightarrow> ?pwm1 p = pwm p" using pN by auto
    show ?thesis
    proof (cases "map_of dm path")
      case None
      with c "1.prems"(1) have "pwm' = ?pwm1" by (simp add: updatePathWeight.simps)
      with b1 u1 show ?thesis by blast
    next
      case (Some list)
      with c "1.prems"(1) have f: "updatePathWeight_for dm list weight references ?pwm1 = (res, pwm')"
        by (simp add: updatePathWeight.simps)
      have "set list \<subseteq> N"
      proof
        fix b assume "b \<in> set list"
        with Some have "isEdge dm path b" by (simp add: isEdge_def)
        with closed show "b \<in> N" by blast
      qed
      from "1.IH"[OF c Some f fin closed this "1.prems"(5,6,7) b1]
      have "weightsBelow N pwm'" "\<forall>p. p \<notin> N \<longrightarrow> pwm' p = ?pwm1 p" by blast+
      with u1 show ?thesis by metis
    qed
  qed
next
  case (2 dm weight references pwm)
  then show ?case by simp
next
  case (3 dm parentPath rest weight references pwm)
  note fin = "3.prems"(2) and closed = "3.prems"(3)
  show ?case
  proof (cases "parentPath \<in> set references")
    case True
    with "3.prems"(1) have "pwm' = pwm" by simp
    with "3.prems"(8) show ?thesis by simp
  next
    case False
    obtain r pw where u: "updatePathWeight dm parentPath (weight + 1) (references @ [parentPath]) pwm = (r, pw)"
      by (cases "updatePathWeight dm parentPath (weight + 1) (references @ [parentPath]) pwm")
    have d: "distinct (references @ [parentPath])" using False "3.prems"(5) by simp
    have s: "set (references @ [parentPath]) \<subseteq> N" using "3.prems"(4,6) by simp
    have l: "int (length (references @ [parentPath])) = weight + 1 + 1" using "3.prems"(7) by simp
    have m: "parentPath \<in> set (references @ [parentPath])" by simp
    from "3.IH"(1)[OF False u fin closed m d s l "3.prems"(8)]
    have b: "weightsBelow N pw" and un: "\<forall>p. p \<notin> N \<longrightarrow> pw p = pwm p" by simp_all
    show ?thesis
    proof (cases r)
      case None
      with u False "3.prems"(1) have f: "updatePathWeight_for dm rest weight references pw = (res, pwm')"
        by simp
      have "set rest \<subseteq> N" using "3.prems"(4) by simp
      from "3.IH"(2)[OF False u[symmetric] None f fin closed this "3.prems"(5,6,7) b] un
      show ?thesis by simp
    next
      case (Some a)
      with u False "3.prems"(1) have "pwm' = pw" by simp
      with b un show ?thesis by simp
    qed
  qed
qed

section \<open>The loop over the source files and the sort\<close>

lemma successively_path:
  "successively R (a # ys @ [b]) \<Longrightarrow> (a, b) \<in> {(x, y). R x y}\<^sup>+"
proof (induction ys arbitrary: a)
  case Nil
  then show ?case by auto
next
  case (Cons y ys)
  then have "R a y" "successively R (y # ys @ [b])" by simp_all
  with Cons.IH[of y] show ?case by (auto intro: trancl_into_trancl2)
qed

lemma successively_repeat:
  assumes "successively R (xs @ [x])" "x \<in> set xs"
  shows "(x, x) \<in> {(a, b). R a b}\<^sup>+"
proof -
  from assms(2) obtain us vs where xs: "xs = us @ x # vs" by (auto dest: split_list)
  with assms(1) have "successively R (us @ (x # vs @ [x]))" by simp
  then have "successively R (x # vs @ [x])" by (simp only: successively_append_iff)
  then show ?thesis by (rule successively_path)
qed

lemma sortOnDependency_for_Some:
  "sortOnDependency_for dm files pwm = (Some r, pwm') \<Longrightarrow>
     \<exists>f \<in> set files. \<not> isDeclarationFile f \<and>
       (\<exists>ext x. r = fileName f # ext @ [x] \<and> x \<in> set (fileName f # ext) \<and>
          distinct (fileName f # ext) \<and> successively (isEdge dm) r)"
proof (induction files arbitrary: pwm)
  case Nil
  then show ?case by simp
next
  case (Cons f rest)
  show ?case
  proof (cases "isDeclarationFile f")
    case True
    with Cons show ?thesis by auto
  next
    case False
    obtain res pw where u: "updatePathWeight dm (fileName f) 0 [fileName f] pwm = (res, pw)"
      by (cases "updatePathWeight dm (fileName f) 0 [fileName f] pwm")
    show ?thesis
    proof (cases res)
      case None
      with u False Cons.prems have "sortOnDependency_for dm rest pw = (Some r, pwm')" by simp
      from Cons.IH[OF this] show ?thesis by auto
    next
      case (Some a)
      with u False Cons.prems have "a = r" by simp
      with u Some have "updatePathWeight dm (fileName f) 0 [fileName f] pwm = (Some r, pw)" by simp
      from updatePathWeight_Some_shape(1)[OF this] False show ?thesis by auto
    qed
  qed
qed

lemma sortOnDependency_for_start:
  "sortOnDependency_for dm files pwm = (Some r, pwm') \<Longrightarrow>
     \<exists>before start after pwm0.
       files = before @ start # after \<and> \<not> isDeclarationFile start \<and>
       sortOnDependency_for dm before pwm = (None, pwm0) \<and>
       updatePathWeight dm (fileName start) 0 [fileName start] pwm0 = (Some r, pwm')"
proof (induction files arbitrary: pwm)
  case Nil
  then show ?case by simp
next
  case (Cons f rest)
  show ?case
  proof (cases "isDeclarationFile f")
    case True
    with Cons.prems
    have "sortOnDependency_for dm rest (pwm(fileName f \<mapsto> 10000)) = (Some r, pwm')" by simp
    from Cons.IH[OF this] obtain before start after pwm0 where
      b: "rest = before @ start # after" "\<not> isDeclarationFile start"
        "sortOnDependency_for dm before (pwm(fileName f \<mapsto> 10000)) = (None, pwm0)"
        "updatePathWeight dm (fileName start) 0 [fileName start] pwm0 = (Some r, pwm')"
      by blast
    from b(3) True have "sortOnDependency_for dm (f # before) pwm = (None, pwm0)" by simp
    with b(1,2,4) show ?thesis
      by (intro exI[of _ "f # before"] exI[of _ start] exI[of _ after] exI[of _ pwm0]) simp
  next
    case False
    obtain res pw where u: "updatePathWeight dm (fileName f) 0 [fileName f] pwm = (res, pw)"
      by (cases "updatePathWeight dm (fileName f) 0 [fileName f] pwm")
    show ?thesis
    proof (cases res)
      case None
      with u False Cons.prems have "sortOnDependency_for dm rest pw = (Some r, pwm')" by simp
      from Cons.IH[OF this] obtain before start after pwm0 where
        b: "rest = before @ start # after" "\<not> isDeclarationFile start"
          "sortOnDependency_for dm before pw = (None, pwm0)"
          "updatePathWeight dm (fileName start) 0 [fileName start] pwm0 = (Some r, pwm')"
        by blast
      from b(3) u None False have "sortOnDependency_for dm (f # before) pwm = (None, pwm0)"
        by simp
      with b(1,2,4) show ?thesis
        by (intro exI[of _ "f # before"] exI[of _ start] exI[of _ after] exI[of _ pwm0]) simp
    next
      case (Some a)
      with u False Cons.prems have "a = r" "pw = pwm'" by simp_all
      with u Some have "updatePathWeight dm (fileName f) 0 [fileName f] pwm = (Some r, pwm')"
        by simp
      with False show ?thesis
        by (intro exI[of _ "[]"] exI[of _ f] exI[of _ rest] exI[of _ pwm]) simp
    qed
  qed
qed

lemma sortOnDependency_for_None:
  "sortOnDependency_for dm files pwm = (None, pwm') \<Longrightarrow>
     weightsClosed dm {} pwm \<Longrightarrow> declarationFilesIsolated dm files \<Longrightarrow>
     weightsClosed dm {} pwm' \<and> (\<forall>f \<in> set files. pwm' (fileName f) \<noteq> None) \<and>
     (\<forall>p. pwm p \<noteq> None \<longrightarrow> pwm' p \<noteq> None)"
proof (induction files arbitrary: pwm)
  case Nil
  then show ?case by simp
next
  case (Cons f rest)
  have iso: "declarationFilesIsolated dm rest"
    using Cons.prems(3) by (simp add: declarationFilesIsolated_def)
  show ?case
  proof (cases "isDeclarationFile f")
    case True
    let ?pwm1 = "pwm(fileName f \<mapsto> 10000)"
    from True Cons.prems(1) have r: "sortOnDependency_for dm rest ?pwm1 = (None, pwm')" by simp
    have noedge: "\<And>x. \<not> isEdge dm (fileName f) x" "\<And>x. \<not> isEdge dm x (fileName f)"
      using Cons.prems(3) True by (simp_all add: declarationFilesIsolated_def)
    have "weightsClosed dm {} ?pwm1"
      unfolding weightsClosed_def
    proof (intro allI impI)
      fix p v x
      assume a: "?pwm1 p = Some v" "p \<notin> {}" "isEdge dm p x"
      from a(3) noedge have "p \<noteq> fileName f" "x \<noteq> fileName f" by auto
      with a Cons.prems(2) show "\<exists>v'. ?pwm1 x = Some v' \<and> v + 1 \<le> v'"
        unfolding weightsClosed_def by simp
    qed
    from Cons.IH[OF r this iso]
    have "weightsClosed dm {} pwm'" "\<forall>f \<in> set rest. pwm' (fileName f) \<noteq> None"
      "\<forall>p. ?pwm1 p \<noteq> None \<longrightarrow> pwm' p \<noteq> None" by blast+
    moreover from this(3) have "pwm' (fileName f) \<noteq> None" by simp
    moreover from calculation(3) have "\<forall>p. pwm p \<noteq> None \<longrightarrow> pwm' p \<noteq> None"
      by (metis fun_upd_apply option.distinct(1))
    ultimately show ?thesis by simp
  next
    case False
    obtain res pw where u: "updatePathWeight dm (fileName f) 0 [fileName f] pwm = (res, pw)"
      by (cases "updatePathWeight dm (fileName f) 0 [fileName f] pwm")
    with False Cons.prems(1) have res: "res = None"
      and r: "sortOnDependency_for dm rest pw = (None, pwm')"
      by (auto split: option.splits)
    from updatePathWeight_closed(1)[OF u[unfolded res]] Cons.prems(2)
    have cl: "weightsClosed dm {} pw" and w: "\<exists>v. pw (fileName f) = Some v"
      and gr: "weightsGrow pwm pw" by auto
    from Cons.IH[OF r cl iso]
    have "weightsClosed dm {} pwm'" "\<forall>f \<in> set rest. pwm' (fileName f) \<noteq> None"
      and k: "\<forall>p. pw p \<noteq> None \<longrightarrow> pwm' p \<noteq> None" by blast+
    moreover from w k have "pwm' (fileName f) \<noteq> None" by auto
    moreover from gr k have "\<forall>p. pwm p \<noteq> None \<longrightarrow> pwm' p \<noteq> None"
      unfolding weightsGrow_def by (metis not_None_eq)
    ultimately show ?thesis by simp
  qed
qed

lemma sortOnDependency_for_dom:
  "sortOnDependency_for dm files pwm = (None, pwm') \<Longrightarrow>
     (\<forall>f \<in> set files. pwm' (fileName f) \<noteq> None) \<and> (\<forall>p. pwm p \<noteq> None \<longrightarrow> pwm' p \<noteq> None)"
proof (induction files arbitrary: pwm)
  case Nil
  then show ?case by simp
next
  case (Cons f rest)
  show ?case
  proof (cases "isDeclarationFile f")
    case True
    with Cons.prems have "sortOnDependency_for dm rest (pwm(fileName f \<mapsto> 10000)) = (None, pwm')"
      by simp
    from Cons.IH[OF this]
    have a: "\<forall>f \<in> set rest. pwm' (fileName f) \<noteq> None"
      and b: "\<forall>p. (pwm(fileName f \<mapsto> 10000)) p \<noteq> None \<longrightarrow> pwm' p \<noteq> None" by blast+
    from b have "pwm' (fileName f) \<noteq> None" by simp
    moreover from b have "\<forall>p. pwm p \<noteq> None \<longrightarrow> pwm' p \<noteq> None"
      by (metis fun_upd_apply option.distinct(1))
    ultimately show ?thesis using a by simp
  next
    case False
    obtain res pw where u: "updatePathWeight dm (fileName f) 0 [fileName f] pwm = (res, pw)"
      by (cases "updatePathWeight dm (fileName f) 0 [fileName f] pwm")
    with False Cons.prems have r: "sortOnDependency_for dm rest pw = (None, pwm')"
      by (auto split: option.splits)
    from updatePathWeight_dom(1)[OF u]
    have m: "\<forall>p. pwm p \<noteq> None \<longrightarrow> pw p \<noteq> None" and w: "pw (fileName f) \<noteq> None" by blast+
    from Cons.IH[OF r] m w show ?thesis by auto
  qed
qed

lemma sortOnDependency_for_bound:
  "sortOnDependency_for dm files pwm = (res, pwm') \<Longrightarrow>
     finite N \<Longrightarrow> \<forall>a b. isEdge dm a b \<longrightarrow> b \<in> N \<Longrightarrow>
     \<forall>f \<in> set files. if isDeclarationFile f then fileName f \<notin> N else fileName f \<in> N \<Longrightarrow>
     weightsBelow N pwm \<Longrightarrow>
     weightsBelow N pwm' \<and>
     (\<forall>p. p \<notin> N \<longrightarrow> pwm p = Some 10000 \<longrightarrow> pwm' p = Some 10000) \<and>
     (res = None \<longrightarrow> (\<forall>f \<in> set files. isDeclarationFile f \<longrightarrow> pwm' (fileName f) = Some 10000))"
proof (induction files arbitrary: pwm)
  case Nil
  then show ?case by simp
next
  case (Cons f rest)
  have r: "\<forall>f \<in> set rest. if isDeclarationFile f then fileName f \<notin> N else fileName f \<in> N"
    using Cons.prems(4) by simp
  show ?case
  proof (cases "isDeclarationFile f")
    case True
    let ?pwm1 = "pwm(fileName f \<mapsto> 10000)"
    from True Cons.prems(1) have s: "sortOnDependency_for dm rest ?pwm1 = (res, pwm')" by simp
    have fN: "fileName f \<notin> N" using Cons.prems(4) True by simp
    have "weightsBelow N ?pwm1" using Cons.prems(5) fN by (simp add: weightsBelow_def)
    from Cons.IH[OF s Cons.prems(2,3) r this]
    have a: "weightsBelow N pwm'"
      and b: "\<forall>p. p \<notin> N \<longrightarrow> ?pwm1 p = Some 10000 \<longrightarrow> pwm' p = Some 10000"
      and c: "res = None \<longrightarrow> (\<forall>f \<in> set rest. isDeclarationFile f \<longrightarrow> pwm' (fileName f) = Some 10000)"
      by blast+
    from b fN have "pwm' (fileName f) = Some 10000" by simp
    moreover from b have "\<forall>p. p \<notin> N \<longrightarrow> pwm p = Some 10000 \<longrightarrow> pwm' p = Some 10000"
      by (metis fun_upd_apply)
    ultimately show ?thesis using a c by simp
  next
    case False
    obtain r1 pw where u: "updatePathWeight dm (fileName f) 0 [fileName f] pwm = (r1, pw)"
      by (cases "updatePathWeight dm (fileName f) 0 [fileName f] pwm")
    have fN: "fileName f \<in> N" using Cons.prems(4) False by simp
    from updatePathWeight_bound(1)[OF u Cons.prems(2,3) _ _ _ _ Cons.prems(5)] fN
    have b: "weightsBelow N pw" and un: "\<forall>p. p \<notin> N \<longrightarrow> pw p = pwm p" by simp_all
    show ?thesis
    proof (cases r1)
      case None
      with u False Cons.prems(1) have s: "sortOnDependency_for dm rest pw = (res, pwm')" by simp
      from Cons.IH[OF s Cons.prems(2,3) r b] un False show ?thesis by simp
    next
      case (Some a)
      with u False Cons.prems(1) have "pwm' = pw" "res = Some a" by simp_all
      with b un show ?thesis by simp
    qed
  qed
qed

lemma weightsClosed_trancl:
  assumes "weightsClosed dm {} pwm" "(a, b) \<in> (dependsOn dm)\<^sup>+" "pwm a = Some va"
  shows "\<exists>vb. pwm b = Some vb \<and> va < vb"
  using assms(2,3)
proof (induction rule: trancl_induct)
  case (base y)
  then have "isEdge dm a y" by (simp add: dependsOn_def)
  with assms(1) base(2) obtain v' where "pwm y = Some v'" "va + 1 \<le> v'"
    unfolding weightsClosed_def by blast
  then show ?case by auto
next
  case (step y z)
  then obtain vy where vy: "pwm y = Some vy" "va < vy" by auto
  from step(2) have "isEdge dm y z" by (simp add: dependsOn_def)
  with assms(1) vy(1) obtain v' where "pwm z = Some v'" "vy + 1 \<le> v'"
    unfolding weightsClosed_def by blast
  with vy(2) show ?case by auto
qed

lemma insertSorted_insort_key:
  "pwm (fileName x) \<noteq> None \<Longrightarrow> \<forall>y \<in> set ys. pwm (fileName y) \<noteq> None \<Longrightarrow>
   insertSorted (compareWeight pwm) x ys = insort_key (\<lambda>f. - the (pwm (fileName f))) x ys"
  by (induction ys) (auto simp: sortCompare_def compareWeight_def)

lemma arraySort_sort_key:
  "\<forall>f \<in> set xs. pwm (fileName f) \<noteq> None \<Longrightarrow>
   arraySort (compareWeight pwm) xs = sort_key (\<lambda>f. - the (pwm (fileName f))) xs"
proof (induction xs)
  case Nil
  then show ?case by (simp add: arraySort_def)
next
  case (Cons x xs)
  then have "arraySort (compareWeight pwm) xs = sort_key (\<lambda>f. - the (pwm (fileName f))) xs"
    by simp
  moreover have "\<forall>y \<in> set (sort_key (\<lambda>f. - the (pwm (fileName f))) xs). pwm (fileName y) \<noteq> None"
    using Cons.prems by simp
  ultimately show ?case
    using Cons.prems insertSorted_insort_key[of pwm x "sort_key (\<lambda>f. - the (pwm (fileName f))) xs"]
    by (simp add: arraySort_def sort_key_def)
qed

lemma descending_dependenciesFirst:
  assumes cl: "weightsClosed dm {} pwm"
    and srt: "sorted (map (\<lambda>n. - the (pwm n)) names)"
    and def: "\<forall>n \<in> set names. pwm n \<noteq> None"
  shows "dependenciesFirst dm names"
  unfolding dependenciesFirst_def
proof (intro allI impI)
  fix i j
  assume i: "i < length names" and j: "j < length names"
    and d: "(names ! j, names ! i) \<in> (dependsOn dm)\<^sup>+"
  from def j obtain vj where vj: "pwm (names ! j) = Some vj" by (metis not_None_eq nth_mem)
  from weightsClosed_trancl[OF cl d vj] obtain vi where vi: "pwm (names ! i) = Some vi" "vj < vi"
    by auto
  show "i < j"
  proof (rule ccontr)
    assume "\<not> i < j"
    then have "j \<le> i" by simp
    with srt i have "(map (\<lambda>n. - the (pwm n)) names) ! j \<le> (map (\<lambda>n. - the (pwm n)) names) ! i"
      by (intro sorted_nth_mono) simp_all
    with i j vi vj show False by simp
  qed
qed

section \<open>The example programs evaluated\<close>

lemmas example_defs = fileA_def fileB_def fileC_def fileU_def fileLib_def envABC_def progABC_def
  progUABC_def fileX_def fileY_def fileMain_def envXY_def progXY_def progMXY_def
  envABCXY_def progABCXY_def fileBOverloaded_def envOverloaded_def progOverloaded_def

lemmas build_defs = walk_Suc buildDependencyMap_def visitFile_def andThen_def
  checkDependencyAtLocation_def addDependency_def checkInheriting_def eval_nat_numeral

lemma build_progXY:
  "buildDependencyMap 10 envXY (sourceFiles progXY) = Inr [(''x.ts'', [''y.ts'']), (''y.ts'', [''x.ts''])]"
  by (simp add: example_defs build_defs)

lemma weights_progXY:
  "sortOnDependency_for [(''x.ts'', [''y.ts'']), (''y.ts'', [''x.ts''])] (sourceFiles progXY) Map.empty
   = (Some [''x.ts'', ''y.ts'', ''x.ts''], [''x.ts'' \<mapsto> 0, ''y.ts'' \<mapsto> 1])"
  by (simp add: example_defs updatePathWeight.simps)

lemma build_progMXY:
  "buildDependencyMap 10 envXY (sourceFiles progMXY)
   = Inr [(''main.ts'', [''y.ts'']), (''y.ts'', [''x.ts'']), (''x.ts'', [''y.ts''])]"
  by (simp add: example_defs build_defs)

lemma weights_progMXY:
  "sortOnDependency_for [(''main.ts'', [''y.ts'']), (''y.ts'', [''x.ts'']), (''x.ts'', [''y.ts''])]
     (sourceFiles progMXY) Map.empty
   = (Some [''main.ts'', ''y.ts'', ''x.ts'', ''y.ts''],
      [''main.ts'' \<mapsto> 0, ''y.ts'' \<mapsto> 1, ''x.ts'' \<mapsto> 2])"
  by (simp add: example_defs updatePathWeight.simps)








lemma build_progABC:
  "buildDependencyMap 10 envABC (sourceFiles progABC) = Inr [(''a.ts'', [''b.ts'']), (''b.ts'', [''c.ts''])]"
  by (simp add: example_defs build_defs)

lemma build_progUABC:
  "buildDependencyMap 10 envABC (sourceFiles progUABC) = Inr [(''a.ts'', [''b.ts'']), (''b.ts'', [''c.ts''])]"
  by (simp add: example_defs build_defs)

lemma weights_progABC:
  "sortOnDependency_for [(''a.ts'', [''b.ts'']), (''b.ts'', [''c.ts''])] (sourceFiles progABC) Map.empty
   = (None, [''lib.d.ts'' \<mapsto> 10000, ''a.ts'' \<mapsto> 0, ''b.ts'' \<mapsto> 1, ''c.ts'' \<mapsto> 2])"
  by (simp add: example_defs updatePathWeight.simps)

lemma weights_progUABC:
  "sortOnDependency_for [(''a.ts'', [''b.ts'']), (''b.ts'', [''c.ts''])] (sourceFiles progUABC) Map.empty
   = (None, [''u.ts'' \<mapsto> 0, ''a.ts'' \<mapsto> 0, ''b.ts'' \<mapsto> 1, ''c.ts'' \<mapsto> 2])"
  by (simp add: example_defs updatePathWeight.simps)

lemma sort_progABC:
  "sortOnDependency [(''a.ts'', [''b.ts'']), (''b.ts'', [''c.ts''])] progABC
   = (\<lparr>sortedFileNames = [''c.ts'', ''b.ts'', ''a.ts''], circularReferences = []\<rparr>,
      \<lparr>sourceFiles = [fileLib, fileC, fileB, fileA],
       rootFileNames = [''lib.d.ts'', ''c.ts'', ''b.ts'', ''a.ts'']\<rparr>)"
  unfolding sortOnDependency_def weights_progABC
  by (simp add: example_defs arraySort_def sortCompare_def compareWeight_def)

lemma sort_progUABC:
  "sortOnDependency [(''a.ts'', [''b.ts'']), (''b.ts'', [''c.ts''])] progUABC
   = (\<lparr>sortedFileNames = [''c.ts'', ''b.ts'', ''u.ts'', ''a.ts''], circularReferences = []\<rparr>,
      \<lparr>sourceFiles = [fileC, fileB, fileU, fileA],
       rootFileNames = [''c.ts'', ''b.ts'', ''u.ts'', ''a.ts'']\<rparr>)"
  unfolding sortOnDependency_def weights_progUABC
  by (simp add: example_defs arraySort_def sortCompare_def compareWeight_def)

lemma wellFormed_progABC: "wellFormedProgram envABC (sourceFiles progABC)"
  by (auto simp: wellFormedProgram_def resolvedFiles_def example_defs split: if_splits)

lemma acyclic_progABC: "acyclic (dependsOn [(''a.ts'', [''b.ts'']), (''b.ts'', [''c.ts''])])"
proof (rule acyclicI_order[where f = "\<lambda>name. if name = ''a.ts'' then 2 else if name = ''b.ts'' then 1 else (0::nat)"])
  fix a b
  assume "(a, b) \<in> dependsOn [(''a.ts'', [''b.ts'']), (''b.ts'', [''c.ts''])]"
  then have "(a = ''a.ts'' \<and> b = ''b.ts'') \<or> (a = ''b.ts'' \<and> b = ''c.ts'')"
    by (auto simp: dependsOn_def isEdge_def split: if_splits)
  then show "(if b = ''a.ts'' then 2 else if b = ''b.ts'' then 1 else (0::nat))
      < (if a = ''a.ts'' then 2 else if a = ''b.ts'' then 1 else 0)"
    by auto
qed



text \<open>
  The chain: the builder records an edge from each file to the next, and the propagation
  started at the first file gives the file number \<open>i\<close> the weight \<open>i\<close>.
\<close>

lemma unitName_inj [simp]: "unitName i = unitName j \<longleftrightarrow> i = j"
proof
  assume "unitName i = unitName j"
  then have "length (unitName i) = length (unitName j)" by simp
  then show "i = j" by (simp add: unitName_def)
qed simp

lemma unitName_not_lib [simp]: "unitName i \<noteq> ''lib.d.ts''"
  by (simp add: unitName_def)

lemma length_unitName [simp]: "length (unitName i) = i + 4"
  by (simp add: unitName_def)

lemma map_of_chainMap:
  "map_of (chainMap k) (unitName i) = (if i < k then Some [unitName (Suc i)] else None)"
proof (induction k)
  case 0
  show ?case by (simp add: chainMap_def)
next
  case (Suc k)
  have "chainMap (Suc k) = chainMap k @ [(unitName k, [unitName (Suc k)])]"
    by (simp add: chainMap_def)
  with Suc show ?case by (auto simp: map_add_def split: option.splits)
qed

lemma chain_weights:
  "i \<le> k \<Longrightarrow> \<forall>j. i \<le> j \<and> j \<le> k \<longrightarrow> pwm (unitName j) = None \<Longrightarrow>
   \<forall>j. i < j \<and> j \<le> k \<longrightarrow> unitName j \<notin> set references \<Longrightarrow>
   \<exists>pwm'. updatePathWeight (chainMap k) (unitName i) weight references pwm = (None, pwm') \<and>
      (\<forall>j. i \<le> j \<and> j \<le> k \<longrightarrow> pwm' (unitName j) = Some (weight + int (j - i))) \<and>
      (\<forall>s. s \<notin> unitName ` {i..k} \<longrightarrow> pwm' s = pwm s)"
proof (induction "k - i" arbitrary: i weight references pwm)
  case 0
  then have ik: "i = k" by simp
  have "updatePathWeight (chainMap k) (unitName k) weight references pwm
      = (None, pwm(unitName k \<mapsto> weight))"
    using "0.prems"(2) ik by (simp add: updatePathWeight.simps map_of_chainMap)
  then show ?case using ik by auto
next
  case (Suc d)
  then have ik: "i < k" and d: "d = k - Suc i" by simp_all
  let ?pwm1 = "pwm(unitName i \<mapsto> weight)"
  have none: "\<forall>j. Suc i \<le> j \<and> j \<le> k \<longrightarrow> ?pwm1 (unitName j) = None"
    using Suc.prems(2) by simp
  have refs: "\<forall>j. Suc i < j \<and> j \<le> k \<longrightarrow> unitName j \<notin> set (references @ [unitName (Suc i)])"
    using Suc.prems(3) by simp
  have "Suc i \<le> k" using ik by simp
  from Suc.hyps(1)[OF d this none refs, of "weight + 1"] obtain pwm' where
    u: "updatePathWeight (chainMap k) (unitName (Suc i)) (weight + 1)
          (references @ [unitName (Suc i)]) ?pwm1 = (None, pwm')"
    and w: "\<forall>j. Suc i \<le> j \<and> j \<le> k \<longrightarrow> pwm' (unitName j) = Some (weight + 1 + int (j - Suc i))"
    and o: "\<forall>s. s \<notin> unitName ` {Suc i..k} \<longrightarrow> pwm' s = ?pwm1 s"
    by blast
  have notin: "unitName (Suc i) \<notin> set references" using Suc.prems(3) ik by simp
  have "updatePathWeight (chainMap k) (unitName i) weight references pwm = (None, pwm')"
    using Suc.prems(1,2) ik notin u
    by (simp add: updatePathWeight.simps[of _ "unitName i"] map_of_chainMap)
  moreover have "\<forall>j. i \<le> j \<and> j \<le> k \<longrightarrow> pwm' (unitName j) = Some (weight + int (j - i))"
  proof (intro allI impI)
    fix j assume j: "i \<le> j \<and> j \<le> k"
    show "pwm' (unitName j) = Some (weight + int (j - i))"
    proof (cases "j = i")
      case True
      have "unitName i \<notin> unitName ` {Suc i..k}" by auto
      with o have "pwm' (unitName i) = ?pwm1 (unitName i)" by blast
      with True show ?thesis by simp
    next
      case False
      with j have "Suc i \<le> j \<and> j \<le> k" by simp
      with w have "pwm' (unitName j) = Some (weight + 1 + int (j - Suc i))" by blast
      moreover have "weight + 1 + int (j - Suc i) = weight + int (j - i)" using False j by simp
      ultimately show ?thesis by simp
    qed
  qed
  moreover have "\<forall>s. s \<notin> unitName ` {i..k} \<longrightarrow> pwm' s = pwm s"
  proof (intro allI impI)
    fix s assume s: "s \<notin> unitName ` {i..k}"
    then have "s \<notin> unitName ` {Suc i..k}" "s \<noteq> unitName i" using ik by auto
    with o show "pwm' s = pwm s" by simp
  qed
  ultimately show ?case by blast
qed

lemma sortOnDependency_for_weighted:
  "\<forall>f \<in> set files. \<not> isDeclarationFile f \<and> (\<exists>v. pwm (fileName f) = Some v \<and> 0 \<le> v) \<Longrightarrow>
   sortOnDependency_for dm files pwm = (None, pwm)"
proof (induction files)
  case Nil
  show ?case by simp
next
  case (Cons f rest)
  then obtain v where "pwm (fileName f) = Some v" "0 \<le> v" by auto
  then have "updatePathWeight dm (fileName f) 0 [fileName f] pwm = (None, pwm)"
    by (simp add: updatePathWeight.simps)
  with Cons show ?case by simp
qed

lemma chain_sortOnDependency_for:
  "\<exists>pwm. sortOnDependency_for (chainMap k) (fileLib # chainFiles k) Map.empty = (None, pwm) \<and>
     pwm (fileName fileLib) = Some 10000 \<and>
     (\<forall>j. j \<le> k \<longrightarrow> pwm (unitName j) = Some (int j))"
proof -
  let ?pwm0 = "[''lib.d.ts'' \<mapsto> (10000::int)]"
  have "\<forall>j. 0 \<le> j \<and> j \<le> k \<longrightarrow> ?pwm0 (unitName j) = None" by simp
  moreover have "\<forall>j. 0 < j \<and> j \<le> k \<longrightarrow> unitName j \<notin> set [unitName 0]" by simp
  ultimately obtain pwm where
    u: "updatePathWeight (chainMap k) (unitName 0) 0 [unitName 0] ?pwm0 = (None, pwm)"
    and w: "\<forall>j. 0 \<le> j \<and> j \<le> k \<longrightarrow> pwm (unitName j) = Some (0 + int (j - 0))"
    and o: "\<forall>s. s \<notin> unitName ` {0..k} \<longrightarrow> pwm s = ?pwm0 s"
    using chain_weights[of 0 k ?pwm0 "[unitName 0]" 0] by blast
  have "''lib.d.ts'' \<notin> unitName ` {0..k}" by (auto simp: unitName_def)
  with o have lib: "pwm ''lib.d.ts'' = Some 10000" by simp
  have "[0..<Suc k] = 0 # [1..<Suc k]" by (simp add: upt_conv_Cons del: upt_Suc)
  then have files: "chainFiles k = chainFile k 0 # map (chainFile k) [1..<Suc k]"
    by (simp only: chainFiles_def list.map)
  have "\<forall>f \<in> set (map (chainFile k) [1..<Suc k]).
          \<not> isDeclarationFile f \<and> (\<exists>v. pwm (fileName f) = Some v \<and> 0 \<le> v)"
    using w by (auto simp: chainFile_def)
  then have "sortOnDependency_for (chainMap k) (map (chainFile k) [1..<Suc k]) pwm = (None, pwm)"
    by (rule sortOnDependency_for_weighted)
  with u have "sortOnDependency_for (chainMap k) (fileLib # chainFiles k) Map.empty = (None, pwm)"
    by (simp add: files fileLib_def chainFile_def)
  with lib w show ?thesis by (auto simp: fileLib_def)
qed

lemma update_new: "map_of al k = None \<Longrightarrow> AList.update k v al = al @ [(k, v)]"
  by (induction al) (auto split: if_splits)

lemma addDependency_chain:
  "addDependency (unitName i) (unitName (Suc i)) (chainMap i) = chainMap (Suc i)"
proof -
  have "map_of (chainMap i) (unitName i) = None" by (simp add: map_of_chainMap)
  then show ?thesis
    by (simp add: addDependency_def update_new) (simp add: chainMap_def)
qed

lemma visitFile_chain:
  "visitFile (Suc (Suc m)) (chainEnv k) (chainFile k i) dm
     = Inr (if i < k then addDependency (unitName i) (unitName (Suc i)) dm else dm)"
  by (simp add: visitFile_def chainFile_def chainEnv_def walk_VisitStatement walk_CheckExpression
      checkDependencyAtLocation_def)

lemma build_chain_from:
  "i \<le> k \<Longrightarrow>
   forEach (\<lambda>sourceFile dm.
        if isDeclarationFile sourceFile then Inr dm
        else visitFile (Suc (Suc m)) (chainEnv k) sourceFile dm)
     (map (chainFile k) [i..<Suc k]) (chainMap i) = Inr (chainMap k)"
proof (induction "k - i" arbitrary: i)
  case 0
  then have "i = k" by simp
  then have "[i..<Suc k] = [k]" by simp
  moreover have "\<not> isDeclarationFile (chainFile k k)" by (simp add: chainFile_def)
  ultimately show ?case using \<open>i = k\<close>
    by (simp add: visitFile_chain)
next
  case (Suc d)
  then have ik: "i < k" and d: "d = k - Suc i" by simp_all
  have l: "[i..<Suc k] = i # [Suc i..<Suc k]" using ik by (simp add: upt_conv_Cons del: upt_Suc)
  have "\<not> isDeclarationFile (chainFile k i)" by (simp add: chainFile_def)
  with Suc.hyps(1)[OF d] ik show ?case
    by (simp only: l list.map forEach.simps visitFile_chain if_False if_True sum.case
        addDependency_chain)
qed

lemma build_chain:
  "buildDependencyMap (Suc (Suc m)) (chainEnv k) (fileLib # chainFiles k) = Inr (chainMap k)"
proof -
  have "chainMap 0 = []" by (simp add: chainMap_def)
  with build_chain_from[of 0 k m] show ?thesis
    by (simp add: buildDependencyMap_def chainFiles_def fileLib_def)
qed

lemma chain_reaches_sentinel:
  "buildDependencyMap 2 (chainEnv k) (fileLib # chainFiles k) = Inr (chainMap k) \<and>
   fst (sortOnDependency_for (chainMap k) (fileLib # chainFiles k) Map.empty) = None \<and>
   snd (sortOnDependency_for (chainMap k) (fileLib # chainFiles k) Map.empty) (fileName fileLib)
     = Some 10000 \<and>
   snd (sortOnDependency_for (chainMap k) (fileLib # chainFiles k) Map.empty)
       (fileName (chainFile k k)) = Some (int k) \<and>
   isDeclarationFile fileLib \<and> \<not> isDeclarationFile (chainFile k k) \<and>
   fileLib \<in> set (fileLib # chainFiles k) \<and> chainFile k k \<in> set (fileLib # chainFiles k)"
proof -
  from chain_sortOnDependency_for[of k] obtain pwm where
    "sortOnDependency_for (chainMap k) (fileLib # chainFiles k) Map.empty = (None, pwm)"
    "pwm (fileName fileLib) = Some 10000" "pwm (unitName k) = Some (int k)" by blast
  moreover have "buildDependencyMap 2 (chainEnv k) (fileLib # chainFiles k) = Inr (chainMap k)"
    using build_chain[of 0 k] by (simp add: numeral_2_eq_2)
  moreover have "chainFile k k \<in> set (chainFiles k)" by (simp add: chainFiles_def)
  moreover have "fileName (chainFile k k) = unitName k" "\<not> isDeclarationFile (chainFile k k)"
    "isDeclarationFile fileLib"
    by (simp_all add: chainFile_def fileLib_def)
  ultimately show ?thesis by simp
qed

section \<open>The result of the sorter\<close>

lemma sortOnDependency_Some:
  assumes "sortOnDependency_for dm (sourceFiles prog) Map.empty = (Some references, pwm)"
  shows "sortOnDependency dm prog = (\<lparr>sortedFileNames = [], circularReferences = references\<rparr>, prog)"
proof -
  from sortOnDependency_for_Some[OF assms] have "references \<noteq> []" by auto
  with assms show ?thesis by (simp add: sortOnDependency_def)
qed

lemma sortOnDependency_None:
  assumes "sortOnDependency_for dm (sourceFiles prog) Map.empty = (None, pwm)"
  shows "sortOnDependency dm prog =
    (\<lparr>sortedFileNames = map fileName (filter (\<lambda>sourceFile. \<not> hasNoDefaultLib sourceFile)
         (arraySort (compareWeight pwm) (sourceFiles prog))),
      circularReferences = []\<rparr>,
     \<lparr>sourceFiles = arraySort (compareWeight pwm) (sourceFiles prog),
      rootFileNames = map fileName (arraySort (compareWeight pwm) (sourceFiles prog))\<rparr>)"
  using assms by (simp add: sortOnDependency_def Let_def)

lemma dependsOn_trancl_repeat:
  assumes "successively (isEdge dm) (xs @ [x])" "x \<in> set xs"
  shows "(x, x) \<in> (dependsOn dm)\<^sup>+"
  using successively_repeat[OF assms] by (simp add: dependsOn_def)

lemma acyclic_no_circular_reference:
  assumes "acyclic (dependsOn dm)"
  shows "fst (sortOnDependency_for dm files pwm) = None"
proof (rule ccontr)
  assume "fst (sortOnDependency_for dm files pwm) \<noteq> None"
  then obtain r pwm' where "sortOnDependency_for dm files pwm = (Some r, pwm')"
    by (cases "sortOnDependency_for dm files pwm") auto
  from sortOnDependency_for_Some[OF this] obtain f :: sourceFile and ext x where
    r: "r = fileName f # ext @ [x]" "x \<in> set (fileName f # ext)" "successively (isEdge dm) r"
    by blast
  from r(1,3) have "successively (isEdge dm) ((fileName f # ext) @ [x])" by simp
  from dependsOn_trancl_repeat[OF this r(2)] assms show False by (simp add: acyclic_def)
qed

lemma sorted_names_dependenciesFirst:
  assumes "sortOnDependency_for dm (sourceFiles prog) Map.empty = (None, pwm)"
    and "declarationFilesIsolated dm (sourceFiles prog)"
  shows "dependenciesFirst dm (sortedFileNames (fst (sortOnDependency dm prog)))"
    and "dependenciesFirst dm (rootFileNames (snd (sortOnDependency dm prog)))"
proof -
  have "weightsClosed dm {} Map.empty" by (simp add: weightsClosed_def)
  from sortOnDependency_for_None[OF assms(1) this assms(2)]
  have cl: "weightsClosed dm {} pwm"
    and w: "\<forall>f \<in> set (sourceFiles prog). pwm (fileName f) \<noteq> None" by blast+
  let ?key = "\<lambda>f. - the (pwm (fileName f))"
  let ?sorted = "sort_key ?key (sourceFiles prog)"
  have s: "arraySort (compareWeight pwm) (sourceFiles prog) = ?sorted"
    using w by (rule arraySort_sort_key)
  have srt: "sorted (map ?key ?sorted)" by (rule sorted_sort_key)
  have m: "map (\<lambda>n. - the (pwm n)) (map fileName ys) = map ?key ys" for ys :: "sourceFile list"
    by simp
  have "sorted (map ?key (filter (\<lambda>f. \<not> hasNoDefaultLib f) ?sorted))"
    using srt by (rule sorted_filter)
  then have "dependenciesFirst dm (map fileName (filter (\<lambda>f. \<not> hasNoDefaultLib f) ?sorted))"
    using w by (intro descending_dependenciesFirst[OF cl]) (simp_all only: m, auto)
  then show "dependenciesFirst dm (sortedFileNames (fst (sortOnDependency dm prog)))"
    by (simp add: sortOnDependency_None[OF assms(1)] s)
  have "dependenciesFirst dm (map fileName ?sorted)"
    using w srt by (intro descending_dependenciesFirst[OF cl]) (simp_all only: m, auto)
  then show "dependenciesFirst dm (rootFileNames (snd (sortOnDependency dm prog)))"
    by (simp add: sortOnDependency_None[OF assms(1)] s)
qed



lemma mset_arraySort:
  assumes "\<forall>f \<in> set xs. pwm (fileName f) \<noteq> None"
  shows "mset (arraySort (compareWeight pwm) xs) = mset xs"
  by (simp add: arraySort_sort_key[OF assms])


text \<open>
  Claim C5. When the propagation of weights finds a circular reference, \<^verbatim>\<open>reorderSourceFiles\<close>
  returns a result (no exception is raised), the result holds that circular reference, its
  list of sorted file names is empty, and the source files and root file names of the program
  are the ones it was called with.
\<close>

theorem circular_reference_is_returned:
  assumes "buildDependencyMap n env (sourceFiles prog) = Inr dm"
    and "sortOnDependency_for dm (sourceFiles prog) Map.empty = (Some references, pwm)"
  shows "reorderSourceFiles n env prog =
    Inr (\<lparr>sortedFileNames = [], circularReferences = references\<rparr>, prog)"
  using assms by (simp add: reorderSourceFiles_def sortOnDependency_Some)

theorem circular_reference_is_returned_witness:
  "buildDependencyMap 10 envXY (sourceFiles progXY) = Inr [(''x.ts'', [''y.ts'']), (''y.ts'', [''x.ts''])]
   \<and> sortOnDependency_for [(''x.ts'', [''y.ts'']), (''y.ts'', [''x.ts''])] (sourceFiles progXY) Map.empty
       = (Some [''x.ts'', ''y.ts'', ''x.ts''], [''x.ts'' \<mapsto> 0, ''y.ts'' \<mapsto> 1])
   \<and> reorderSourceFiles 10 envXY progXY =
       Inr (\<lparr>sortedFileNames = [], circularReferences = [''x.ts'', ''y.ts'', ''x.ts'']\<rparr>, progXY)"
  using circular_reference_is_returned[OF build_progXY weights_progXY] build_progXY weights_progXY
  by simp

text \<open>
  Claim C2, as stated, fails. \<^verbatim>\<open>main.ts\<close> depends on \<^verbatim>\<open>y.ts\<close>, and \<^verbatim>\<open>y.ts\<close> and \<^verbatim>\<open>x.ts\<close>
  depend on each other. The propagation starts at \<^verbatim>\<open>main.ts\<close>, which is not on the cycle, and
  the reported path begins with \<^verbatim>\<open>main.ts\<close> and ends with \<^verbatim>\<open>y.ts\<close>.
\<close>

theorem circular_reference_first_differs_from_last:
  "reorderSourceFiles 10 envXY progMXY =
     Inr (\<lparr>sortedFileNames = [],
           circularReferences = [''main.ts'', ''y.ts'', ''x.ts'', ''y.ts'']\<rparr>, progMXY)"
  by (simp add: reorderSourceFiles_def build_progMXY sortOnDependency_Some[OF weights_progMXY])

text \<open>
  Claim C2, amended. A reported circular reference is the path that the propagation returned
  from the file \<open>start\<close> at which it started: a source file of the program that is no
  declaration file, behind files whose propagations ended without a circular reference. The
  path begins with the name of \<open>start\<close>; each entry is recorded in the dependency map as a
  dependency of the entry before it; no name occurs twice before the last entry; and the path
  ends with the cycle: a part of at least two entries whose first and last entries are
  identical. The first and the last entry of the whole path are identical exactly when
  nothing comes before the cycle, that is, when the cycle passes through \<open>start\<close>.
\<close>

theorem circular_reference_path:
  assumes "sortOnDependency dm prog = (result, prog')" and "circularReferences result \<noteq> []"
  shows "\<exists>before start after pwm pwm' path cycle.
    sourceFiles prog = before @ start # after \<and>
    \<not> isDeclarationFile start \<and>
    sortOnDependency_for dm before Map.empty = (None, pwm) \<and>
    updatePathWeight dm (fileName start) 0 [fileName start] pwm
      = (Some (circularReferences result), pwm') \<and>
    hd (circularReferences result) = fileName start \<and>
    successively (isEdge dm) (circularReferences result) \<and>
    distinct (butlast (circularReferences result)) \<and>
    circularReferences result = path @ cycle \<and>
    2 \<le> length cycle \<and> hd cycle = last cycle \<and>
    (path = []) = (hd (circularReferences result) = last (circularReferences result))"
proof -
  obtain found pwm1 where f: "sortOnDependency_for dm (sourceFiles prog) Map.empty = (found, pwm1)"
    by (cases "sortOnDependency_for dm (sourceFiles prog) Map.empty")
  show ?thesis
  proof (cases found)
    case None
    with f assms sortOnDependency_None[of dm prog pwm1] show ?thesis by auto
  next
    case (Some r)
    with f assms(1) sortOnDependency_Some[of dm prog r pwm1] have r: "circularReferences result = r"
      by auto
    from sortOnDependency_for_start[OF f[unfolded Some]] obtain before start after pwm where
      b: "sourceFiles prog = before @ start # after" "\<not> isDeclarationFile start"
        "sortOnDependency_for dm before Map.empty = (None, pwm)"
        "updatePathWeight dm (fileName start) 0 [fileName start] pwm = (Some r, pwm1)"
      by blast
    from updatePathWeight_Some_shape(1)[OF b(4)] obtain ext x where
      e: "r = fileName start # ext @ [x]" "x \<in> set (fileName start # ext)"
        "distinct (fileName start # ext)" "successively (isEdge dm) r" by auto
    from e(2) obtain us vs where uv: "fileName start # ext = us @ x # vs"
      using split_list[of x "fileName start # ext"] by blast
    have rr: "r = us @ (x # vs @ [x])" using e(1) uv by (metis append.assoc append_Cons)
    have bl: "butlast r = fileName start # ext" using e(1) by (simp add: butlast_append)
    have hd: "hd r = fileName start" using e(1) by simp
    have la: "last r = x" using e(1) by simp
    have iff: "(us = []) = (hd r = last r)"
    proof
      assume "us = []"
      with uv hd la show "hd r = last r" by simp
    next
      assume "hd r = last r"
      with hd la have "fileName start = x" by simp
      show "us = []"
      proof (cases us)
        case Nil
        then show ?thesis .
      next
        case (Cons u us')
        with uv have "u = fileName start" "ext = us' @ x # vs" by simp_all
        with e(3) \<open>fileName start = x\<close> show ?thesis by simp
      qed
    qed
    show ?thesis unfolding r
      using b rr bl hd e(3,4) iff
      by (intro exI[of _ before] exI[of _ start] exI[of _ after] exI[of _ pwm] exI[of _ pwm1]
            exI[of _ us] exI[of _ "x # vs @ [x]"]) simp
  qed
qed

theorem circular_reference_path_witness:
  "sortOnDependency [(''main.ts'', [''y.ts'']), (''y.ts'', [''x.ts'']), (''x.ts'', [''y.ts''])] progMXY
     = (\<lparr>sortedFileNames = [], circularReferences = [''main.ts'', ''y.ts'', ''x.ts'', ''y.ts'']\<rparr>, progMXY)
   \<and> [''main.ts'', ''y.ts'', ''x.ts'', ''y.ts''] \<noteq> []
   \<and> (\<exists>before start after pwm pwm' path cycle.
        sourceFiles progMXY = before @ start # after \<and>
        \<not> isDeclarationFile start \<and>
        sortOnDependency_for [(''main.ts'', [''y.ts'']), (''y.ts'', [''x.ts'']), (''x.ts'', [''y.ts''])]
          before Map.empty = (None, pwm) \<and>
        updatePathWeight [(''main.ts'', [''y.ts'']), (''y.ts'', [''x.ts'']), (''x.ts'', [''y.ts''])]
          (fileName start) 0 [fileName start] pwm
          = (Some [''main.ts'', ''y.ts'', ''x.ts'', ''y.ts''], pwm') \<and>
        hd [''main.ts'', ''y.ts'', ''x.ts'', ''y.ts''] = fileName start \<and>
        successively (isEdge [(''main.ts'', [''y.ts'']), (''y.ts'', [''x.ts'']), (''x.ts'', [''y.ts''])])
          [''main.ts'', ''y.ts'', ''x.ts'', ''y.ts''] \<and>
        distinct (butlast [''main.ts'', ''y.ts'', ''x.ts'', ''y.ts'']) \<and>
        [''main.ts'', ''y.ts'', ''x.ts'', ''y.ts''] = path @ cycle \<and>
        2 \<le> length cycle \<and> hd cycle = last cycle \<and>
        (path = []) = (hd [''main.ts'', ''y.ts'', ''x.ts'', ''y.ts'']
                        = last [''main.ts'', ''y.ts'', ''x.ts'', ''y.ts'']))"
  using circular_reference_path[OF sortOnDependency_Some[OF weights_progMXY]]
    sortOnDependency_Some[OF weights_progMXY]
  by simp

text \<open>
  Claim C3, as stated, fails. \<^verbatim>\<open>a.ts\<close> depends on \<^verbatim>\<open>b.ts\<close>; the propagation ends without a
  circular reference with the weight 0 for \<^verbatim>\<open>a.ts\<close> and 1 for \<^verbatim>\<open>b.ts\<close>, and 0 is not at least
  1 + 1.
\<close>

theorem dependent_weight_is_smaller:
  "isEdge [(''a.ts'', [''b.ts'']), (''b.ts'', [''c.ts''])] ''a.ts'' ''b.ts'' \<and>
   fst (sortOnDependency_for [(''a.ts'', [''b.ts'']), (''b.ts'', [''c.ts''])] (sourceFiles progABC) Map.empty) = None \<and>
   snd (sortOnDependency_for [(''a.ts'', [''b.ts'']), (''b.ts'', [''c.ts''])] (sourceFiles progABC) Map.empty) ''a.ts'' = Some 0 \<and>
   snd (sortOnDependency_for [(''a.ts'', [''b.ts'']), (''b.ts'', [''c.ts''])] (sourceFiles progABC) Map.empty) ''b.ts'' = Some 1"
  by (simp add: weights_progABC isEdge_def)

text \<open>
  Claim C3, amended. After the propagation has ended without a circular reference, for every
  source file \<open>a\<close> and every file \<open>x\<close> that \<open>a\<close> depends on, the weight of \<open>x\<close> (the
  dependency) is at least the weight of \<open>a\<close> plus one, provided no edge of the dependency map
  starts or ends at a declaration file.
\<close>

theorem dependency_weight_is_larger:
  assumes "sortOnDependency_for dm files Map.empty = (None, pwm)"
    and "declarationFilesIsolated dm files"
    and "a \<in> set files" and "isEdge dm (fileName a) x"
  shows "\<exists>wa wx. pwm (fileName a) = Some wa \<and> pwm x = Some wx \<and> wa + 1 \<le> wx"
proof -
  have "weightsClosed dm {} Map.empty" by (simp add: weightsClosed_def)
  from sortOnDependency_for_None[OF assms(1) this assms(2)]
  have cl: "weightsClosed dm {} pwm" and w: "\<forall>f \<in> set files. pwm (fileName f) \<noteq> None" by blast+
  from w assms(3) obtain wa where wa: "pwm (fileName a) = Some wa" by auto
  with cl assms(4) show ?thesis unfolding weightsClosed_def by blast
qed

lemma isolated_progABC:
  "declarationFilesIsolated [(''a.ts'', [''b.ts'']), (''b.ts'', [''c.ts''])] (sourceFiles progABC)"
  by (auto simp: declarationFilesIsolated_def isEdge_def example_defs split: if_splits)

theorem dependency_weight_is_larger_witness:
  "sortOnDependency_for [(''a.ts'', [''b.ts'']), (''b.ts'', [''c.ts''])] (sourceFiles progABC) Map.empty
     = (None, [''lib.d.ts'' \<mapsto> 10000, ''a.ts'' \<mapsto> 0, ''b.ts'' \<mapsto> 1, ''c.ts'' \<mapsto> 2])
   \<and> declarationFilesIsolated [(''a.ts'', [''b.ts'']), (''b.ts'', [''c.ts''])] (sourceFiles progABC)
   \<and> fileA \<in> set (sourceFiles progABC)
   \<and> isEdge [(''a.ts'', [''b.ts'']), (''b.ts'', [''c.ts''])] (fileName fileA) ''b.ts''
   \<and> (\<exists>wa wx. [''lib.d.ts'' \<mapsto> 10000, ''a.ts'' \<mapsto> 0, ''b.ts'' \<mapsto> 1, ''c.ts'' \<mapsto> (2::int)] (fileName fileA) = Some wa
        \<and> [''lib.d.ts'' \<mapsto> 10000, ''a.ts'' \<mapsto> 0, ''b.ts'' \<mapsto> 1, ''c.ts'' \<mapsto> 2] ''b.ts'' = Some wx
        \<and> wa + 1 \<le> wx)"
proof -
  have m: "fileA \<in> set (sourceFiles progABC)" by (simp add: progABC_def)
  have e: "isEdge [(''a.ts'', [''b.ts'']), (''b.ts'', [''c.ts''])] (fileName fileA) ''b.ts''"
    by (simp add: isEdge_def fileA_def)
  from dependency_weight_is_larger[OF weights_progABC isolated_progABC m e]
    weights_progABC isolated_progABC m e
  show ?thesis by blast
qed

text \<open>
  Claim C7, as stated, fails. In the program \<^verbatim>\<open>u.ts\<close>, \<^verbatim>\<open>a.ts\<close>, \<^verbatim>\<open>b.ts\<close>, \<^verbatim>\<open>c.ts\<close> the only
  edges are from \<^verbatim>\<open>a.ts\<close> to \<^verbatim>\<open>b.ts\<close> and from \<^verbatim>\<open>b.ts\<close> to \<^verbatim>\<open>c.ts\<close>: there is no edge between
  \<^verbatim>\<open>u.ts\<close> and \<^verbatim>\<open>c.ts\<close>. \<^verbatim>\<open>u.ts\<close> comes before \<^verbatim>\<open>c.ts\<close> in the input and after it in the
  output.
\<close>

theorem unrelated_units_change_order:
  "buildDependencyMap 10 envABC (sourceFiles progUABC)
     = Inr [(''a.ts'', [''b.ts'']), (''b.ts'', [''c.ts''])] \<and>
   map fileName (sourceFiles progUABC) = [''u.ts'', ''a.ts'', ''b.ts'', ''c.ts''] \<and>
   reorderSourceFiles 10 envABC progUABC =
     Inr (\<lparr>sortedFileNames = [''c.ts'', ''b.ts'', ''u.ts'', ''a.ts''], circularReferences = []\<rparr>,
          \<lparr>sourceFiles = [fileC, fileB, fileU, fileA],
           rootFileNames = [''c.ts'', ''b.ts'', ''u.ts'', ''a.ts'']\<rparr>)"
  by (simp add: reorderSourceFiles_def build_progUABC sort_progUABC) (simp add: example_defs)

text \<open>
  Claim C7, amended. When no circular reference is reported, the files of one and the same
  weight keep the order they have in the input, in the root file names as well as in the
  sorted file names: the sort is stable.
\<close>

theorem equal_weights_keep_input_order:
  assumes "sortOnDependency_for dm (sourceFiles prog) Map.empty = (None, pwm)"
  shows "filter (\<lambda>name. pwm name = Some w) (rootFileNames (snd (sortOnDependency dm prog)))
         = filter (\<lambda>name. pwm name = Some w) (map fileName (sourceFiles prog))
       \<and> filter (\<lambda>name. pwm name = Some w) (sortedFileNames (fst (sortOnDependency dm prog)))
         = filter (\<lambda>name. pwm name = Some w)
             (map fileName (filter (\<lambda>f. \<not> hasNoDefaultLib f) (sourceFiles prog)))"
proof -
  from sortOnDependency_for_dom[OF assms]
  have w: "\<forall>f \<in> set (sourceFiles prog). pwm (fileName f) \<noteq> None" by blast
  let ?key = "\<lambda>f. - the (pwm (fileName f))"
  let ?P = "\<lambda>f. pwm (fileName f) = Some w"
  have s: "arraySort (compareWeight pwm) (sourceFiles prog) = sort_key ?key (sourceFiles prog)"
    using w by (rule arraySort_sort_key)
  have k: "filter ?P (filter (\<lambda>f. ?key f = - w) xs) = filter ?P xs" for xs :: "sourceFile list"
    by (induction xs) auto
  have "filter ?P (sort_key ?key (sourceFiles prog))
      = filter ?P (filter (\<lambda>f. ?key f = - w) (sort_key ?key (sourceFiles prog)))"
    by (simp only: k)
  also have "\<dots> = filter ?P (filter (\<lambda>f. ?key f = - w) (sourceFiles prog))"
    by (simp only: sort_key_stable)
  also have "\<dots> = filter ?P (sourceFiles prog)"
    by (simp only: k)
  finally have st: "filter ?P (sort_key ?key (sourceFiles prog)) = filter ?P (sourceFiles prog)" .
  have "filter (\<lambda>f. \<not> hasNoDefaultLib f) (filter ?P (sort_key ?key (sourceFiles prog)))
      = filter (\<lambda>f. \<not> hasNoDefaultLib f) (filter ?P (sourceFiles prog))"
    by (simp only: st)
  then have st': "filter (\<lambda>f. \<not> hasNoDefaultLib f \<and> ?P f) (sort_key ?key (sourceFiles prog))
      = filter (\<lambda>f. \<not> hasNoDefaultLib f \<and> ?P f) (sourceFiles prog)"
    by (simp add: conj_commute)
  show ?thesis
    by (simp add: sortOnDependency_None[OF assms] s filter_map o_def st st')
qed

theorem equal_weights_keep_input_order_witness:
  "sortOnDependency_for [(''a.ts'', [''b.ts'']), (''b.ts'', [''c.ts''])] (sourceFiles progUABC) Map.empty
     = (None, [''u.ts'' \<mapsto> 0, ''a.ts'' \<mapsto> 0, ''b.ts'' \<mapsto> 1, ''c.ts'' \<mapsto> 2])
   \<and> sortedFileNames (fst (sortOnDependency [(''a.ts'', [''b.ts'']), (''b.ts'', [''c.ts''])] progUABC))
     = [''c.ts'', ''b.ts'', ''u.ts'', ''a.ts'']
   \<and> filter (\<lambda>name. [''u.ts'' \<mapsto> 0, ''a.ts'' \<mapsto> 0, ''b.ts'' \<mapsto> 1, ''c.ts'' \<mapsto> (2::int)] name = Some 0)
       (sortedFileNames (fst (sortOnDependency [(''a.ts'', [''b.ts'']), (''b.ts'', [''c.ts''])] progUABC)))
     = [''u.ts'', ''a.ts'']
   \<and> filter (\<lambda>name. [''u.ts'' \<mapsto> 0, ''a.ts'' \<mapsto> 0, ''b.ts'' \<mapsto> 1, ''c.ts'' \<mapsto> (2::int)] name = Some 0)
       (map fileName (filter (\<lambda>f. \<not> hasNoDefaultLib f) (sourceFiles progUABC)))
     = [''u.ts'', ''a.ts'']"
  using equal_weights_keep_input_order[OF weights_progUABC, of 0] weights_progUABC
  by (simp add: sort_progUABC) (simp add: example_defs)

section \<open>The result of the builder\<close>

text \<open>
  Claim C8. The dependency map that the builder returns has no edge from a file to itself:
  \<open>addDependency\<close> with twice the same name changes nothing, whatever the map, and so the
  weights computed from the map are the same with and without such a call.
\<close>

theorem no_self_edges:
  assumes "buildDependencyMap n env files = Inr dm"
  shows "(\<forall>unit. \<not> isEdge dm unit unit) \<and>
         (\<forall>unit m. addDependency unit unit m = m) \<and>
         (\<forall>unit m pwm. sortOnDependency_for (addDependency unit unit m) files pwm
                         = sortOnDependency_for m files pwm)"
proof -
  have "\<forall>unit. \<not> isEdge dm unit unit"
  proof (rule buildDependencyMap_keeps[where P = "\<lambda>dm. \<forall>unit. \<not> isEdge dm unit unit"
        and G = "\<lambda>_. True", OF _ _ _ _ assms])
    show "\<forall>unit. \<not> isEdge [] unit unit" by (simp add: isEdge_def)
  qed (simp_all add: isEdge_addDependency)
  moreover have "\<forall>unit m. addDependency unit unit m = m" by (simp add: addDependency_def)
  ultimately show ?thesis by simp
qed

theorem no_self_edges_witness:
  "buildDependencyMap 10 envABC (sourceFiles progABC) = Inr [(''a.ts'', [''b.ts'']), (''b.ts'', [''c.ts''])]
   \<and> \<not> isEdge [(''a.ts'', [''b.ts'']), (''b.ts'', [''c.ts''])] ''c.ts'' ''c.ts''
   \<and> addDependency ''c.ts'' ''c.ts'' [(''a.ts'', [''b.ts'']), (''b.ts'', [''c.ts''])]
        = [(''a.ts'', [''b.ts'']), (''b.ts'', [''c.ts''])]"
  using no_self_edges[OF build_progABC] build_progABC by simp

text \<open>
  Claim C9. In the dependency map that the builder returns every pair (dependent,
  dependency) occurs once at most: every file name is a key once, and the list of
  dependencies of a file has no entry twice.
\<close>

theorem no_duplicate_edges:
  assumes "buildDependencyMap n env files = Inr dm"
  shows "distinct (recordedPairs dm) \<and> distinct (map fst dm) \<and>
         (\<forall>file list. map_of dm file = Some list \<longrightarrow> distinct list)"
proof -
  let ?P = "\<lambda>dm. distinct (map fst dm) \<and> (\<forall>file list. map_of dm file = Some list \<longrightarrow> distinct list)"
  have "?P dm"
  proof (rule buildDependencyMap_keeps[where P = ?P and G = "\<lambda>_. True", OF _ _ _ _ assms])
    show "?P []" by simp
  next
    fix s t :: sourceFile and dm :: depmap
    assume "?P dm"
    then show "?P (addDependency (fileName s) (fileName t) dm)"
      by (auto simp: distinct_keys_addDependency map_of_addDependency
          split: option.splits if_splits)
  qed simp_all
  then show ?thesis using distinct_recordedPairs by blast
qed

theorem no_duplicate_edges_witness:
  "buildDependencyMap 10 envABC (sourceFiles progABC) = Inr [(''a.ts'', [''b.ts'']), (''b.ts'', [''c.ts''])]
   \<and> recordedPairs [(''a.ts'', [''b.ts'']), (''b.ts'', [''c.ts''])] = [(''a.ts'', ''b.ts''), (''b.ts'', ''c.ts'')]
   \<and> distinct (recordedPairs [(''a.ts'', [''b.ts'']), (''b.ts'', [''c.ts''])])
   \<and> distinct (map fst [(''a.ts'', [''b.ts'']), (''b.ts'', [''c.ts''])])"
  using no_duplicate_edges[OF build_progABC] build_progABC by (simp add: recordedPairs_def)

text \<open>
  Claim C10. Both ends of every edge that the builder records are names of known files that
  are no declaration files: the builder itself tests \<^verbatim>\<open>isDeclarationFile\<close> of the file of the
  resolved declaration before it adds the edge, and a declaration file is never walked.
\<close>

theorem edges_join_non_declaration_files:
  assumes "buildDependencyMap n env files = Inr dm" and "isEdge dm a b"
  shows "(\<exists>s. knownFile env files s \<and> \<not> isDeclarationFile s \<and> fileName s = a) \<and>
         (\<exists>t. knownFile env files t \<and> \<not> isDeclarationFile t \<and> fileName t = b)"
  using assms by (rule built_edges_known)

theorem edges_join_non_declaration_files_witness:
  "buildDependencyMap 10 envABC (sourceFiles progABC) = Inr [(''a.ts'', [''b.ts'']), (''b.ts'', [''c.ts''])]
   \<and> isEdge [(''a.ts'', [''b.ts'']), (''b.ts'', [''c.ts''])] ''a.ts'' ''b.ts''
   \<and> (\<exists>s. knownFile envABC (sourceFiles progABC) s \<and> \<not> isDeclarationFile s \<and> fileName s = ''a.ts'')
   \<and> (\<exists>t. knownFile envABC (sourceFiles progABC) t \<and> \<not> isDeclarationFile t \<and> fileName t = ''b.ts'')"
proof -
  have e: "isEdge [(''a.ts'', [''b.ts'']), (''b.ts'', [''c.ts''])] ''a.ts'' ''b.ts''"
    by (simp add: isEdge_def)
  from edges_join_non_declaration_files[OF build_progABC e] build_progABC e
  show ?thesis by blast
qed

section \<open>The builder and the sorter together\<close>

text \<open>
  Claim C1. If the dependency map built for a well-formed program has no cycle, then
  \<^verbatim>\<open>reorderSourceFiles\<close> returns the result of the sort and no circular reference is reported.
  The new list of source files holds the files of the program, each as often as before; the
  new root file names are their names in the new order, without repetition; the sorted file
  names are these names without the files that have \<^verbatim>\<open>hasNoDefaultLib\<close>; and in the sorted
  file names as well as in the new root file names every file comes after all files it
  depends on, directly or through other files.
\<close>

theorem acyclic_map_sorts_dependencies_first:
  assumes "buildDependencyMap n env (sourceFiles prog) = Inr dm"
    and "acyclic (dependsOn dm)"
    and "wellFormedProgram env (sourceFiles prog)"
  shows "reorderSourceFiles n env prog = Inr (sortOnDependency dm prog) \<and>
         circularReferences (fst (sortOnDependency dm prog)) = [] \<and>
         mset (sourceFiles (snd (sortOnDependency dm prog))) = mset (sourceFiles prog) \<and>
         rootFileNames (snd (sortOnDependency dm prog))
           = map fileName (sourceFiles (snd (sortOnDependency dm prog))) \<and>
         sortedFileNames (fst (sortOnDependency dm prog))
           = map fileName (filter (\<lambda>sourceFile. \<not> hasNoDefaultLib sourceFile)
               (sourceFiles (snd (sortOnDependency dm prog)))) \<and>
         distinct (rootFileNames (snd (sortOnDependency dm prog))) \<and>
         dependenciesFirst dm (sortedFileNames (fst (sortOnDependency dm prog))) \<and>
         dependenciesFirst dm (rootFileNames (snd (sortOnDependency dm prog)))"
proof -
  obtain pwm where n: "sortOnDependency_for dm (sourceFiles prog) Map.empty = (None, pwm)"
    using acyclic_no_circular_reference[OF assms(2), of "sourceFiles prog" Map.empty]
    by (cases "sortOnDependency_for dm (sourceFiles prog) Map.empty") auto
  have iso: "declarationFilesIsolated dm (sourceFiles prog)"
    using assms(1,3) by (rule built_declarationFilesIsolated)
  have "weightsClosed dm {} Map.empty" by (simp add: weightsClosed_def)
  from sortOnDependency_for_None[OF n this iso]
  have w: "\<forall>f \<in> set (sourceFiles prog). pwm (fileName f) \<noteq> None" by blast
  have m: "mset (arraySort (compareWeight pwm) (sourceFiles prog)) = mset (sourceFiles prog)"
    using w by (rule mset_arraySort)
  then have "mset (map fileName (arraySort (compareWeight pwm) (sourceFiles prog)))
      = mset (map fileName (sourceFiles prog))"
    by (metis mset_map)
  moreover have "distinct (map fileName (sourceFiles prog))"
    using assms(3) by (simp add: wellFormedProgram_def)
  ultimately have d: "distinct (map fileName (arraySort (compareWeight pwm) (sourceFiles prog)))"
    by (metis mset_eq_imp_distinct_iff)
  show ?thesis
    using sorted_names_dependenciesFirst[OF n iso] assms(1) m d
    by (simp add: reorderSourceFiles_def sortOnDependency_None[OF n])
qed

theorem acyclic_map_sorts_dependencies_first_witness:
  "buildDependencyMap 10 envABC (sourceFiles progABC) = Inr [(''a.ts'', [''b.ts'']), (''b.ts'', [''c.ts''])]
   \<and> acyclic (dependsOn [(''a.ts'', [''b.ts'']), (''b.ts'', [''c.ts''])])
   \<and> wellFormedProgram envABC (sourceFiles progABC)
   \<and> reorderSourceFiles 10 envABC progABC
        = Inr (sortOnDependency [(''a.ts'', [''b.ts'']), (''b.ts'', [''c.ts''])] progABC)
   \<and> circularReferences (fst (sortOnDependency [(''a.ts'', [''b.ts'']), (''b.ts'', [''c.ts''])] progABC)) = []
   \<and> sourceFiles (snd (sortOnDependency [(''a.ts'', [''b.ts'']), (''b.ts'', [''c.ts''])] progABC))
        = [fileLib, fileC, fileB, fileA]
   \<and> mset [fileLib, fileC, fileB, fileA] = mset (sourceFiles progABC)
   \<and> sortedFileNames (fst (sortOnDependency [(''a.ts'', [''b.ts'']), (''b.ts'', [''c.ts''])] progABC))
        = [''c.ts'', ''b.ts'', ''a.ts'']
   \<and> dependenciesFirst [(''a.ts'', [''b.ts'']), (''b.ts'', [''c.ts''])] [''c.ts'', ''b.ts'', ''a.ts'']
   \<and> rootFileNames (snd (sortOnDependency [(''a.ts'', [''b.ts'']), (''b.ts'', [''c.ts''])] progABC))
        = [''lib.d.ts'', ''c.ts'', ''b.ts'', ''a.ts'']
   \<and> distinct [''lib.d.ts'', ''c.ts'', ''b.ts'', ''a.ts'']
   \<and> dependenciesFirst [(''a.ts'', [''b.ts'']), (''b.ts'', [''c.ts''])]
        [''lib.d.ts'', ''c.ts'', ''b.ts'', ''a.ts'']"
proof -
  let ?dm = "[(''a.ts'', [''b.ts'']), (''b.ts'', [''c.ts''])]"
  note sorted = acyclic_map_sorts_dependencies_first[OF build_progABC acyclic_progABC
      wellFormed_progABC]
  from sorted have 1: "reorderSourceFiles 10 envABC progABC = Inr (sortOnDependency ?dm progABC)"
    by blast
  from sorted have 2: "mset (sourceFiles (snd (sortOnDependency ?dm progABC)))
      = mset (sourceFiles progABC)"
    by blast
  from sorted have 3: "dependenciesFirst ?dm (sortedFileNames (fst (sortOnDependency ?dm progABC)))"
    "dependenciesFirst ?dm (rootFileNames (snd (sortOnDependency ?dm progABC)))"
    by blast+
  from 1 2 3 build_progABC acyclic_progABC wellFormed_progABC show ?thesis
    by (simp add: sort_progABC)
qed




text \<open>
  Claim C4, as stated, fails. In the chain of 10001 files behind \<^verbatim>\<open>lib.d.ts\<close>, each depending
  on the next, the propagation ends without a circular reference and gives the last file
  of the chain, which is no declaration file, the weight 10000: the weight of the
  declaration file \<^verbatim>\<open>lib.d.ts\<close>.
\<close>

theorem long_chain_weight_reaches_sentinel:
  "buildDependencyMap 2 (chainEnv 10000) (fileLib # chainFiles 10000) = Inr (chainMap 10000) \<and>
   fst (sortOnDependency_for (chainMap 10000) (fileLib # chainFiles 10000) Map.empty) = None \<and>
   snd (sortOnDependency_for (chainMap 10000) (fileLib # chainFiles 10000) Map.empty)
       (fileName fileLib) = Some 10000 \<and>
   snd (sortOnDependency_for (chainMap 10000) (fileLib # chainFiles 10000) Map.empty)
       (fileName (chainFile 10000 10000)) = Some 10000 \<and>
   isDeclarationFile fileLib \<and> \<not> isDeclarationFile (chainFile 10000 10000) \<and>
   fileLib \<in> set (fileLib # chainFiles 10000) \<and>
   chainFile 10000 10000 \<in> set (fileLib # chainFiles 10000)"
  using chain_reaches_sentinel[of 10000] unfolding of_nat_numeral .

text \<open>
  Claim C4, amended. In a well-formed program with at most 10000 files that are no
  declaration files, after a propagation without circular reference every declaration file
  has the weight 10000 and every other file a weight below 10000.
\<close>

theorem sentinel_exceeds_weights_up_to_10000_units:
  assumes "buildDependencyMap n env files = Inr dm" and "wellFormedProgram env files"
    and "length (filter (\<lambda>f. \<not> isDeclarationFile f) files) \<le> 10000"
    and "sortOnDependency_for dm files Map.empty = (None, pwm)"
    and "d \<in> set files" "isDeclarationFile d" and "u \<in> set files" "\<not> isDeclarationFile u"
  shows "\<exists>w. pwm (fileName d) = Some 10000 \<and> pwm (fileName u) = Some w \<and> w < 10000"
proof -
  let ?N = "nonDeclarationNames files"
  have fin: "finite ?N" by (simp add: nonDeclarationNames_def)
  have dist: "distinct (map fileName files)" and sub: "resolvedFiles env \<subseteq> set files"
    using assms(2) by (simp_all add: wellFormedProgram_def)
  have closed: "\<forall>a b. isEdge dm a b \<longrightarrow> b \<in> ?N"
  proof (intro allI impI)
    fix a b assume "isEdge dm a b"
    from built_edges_known[OF assms(1) this] obtain t where
      "knownFile env files t" "\<not> isDeclarationFile t" "fileName t = b" by blast
    with sub show "b \<in> ?N" by (auto simp: knownFile_def nonDeclarationNames_def)
  qed
  have names: "\<forall>f \<in> set files. if isDeclarationFile f then fileName f \<notin> ?N else fileName f \<in> ?N"
  proof
    fix f assume f: "f \<in> set files"
    show "if isDeclarationFile f then fileName f \<notin> ?N else fileName f \<in> ?N"
    proof (cases "isDeclarationFile f")
      case True
      have "fileName f \<notin> ?N"
      proof
        assume "fileName f \<in> ?N"
        then obtain g where g: "g \<in> set files" "\<not> isDeclarationFile g" "fileName g = fileName f"
          by (auto simp: nonDeclarationNames_def)
        with dist f have "g = f" by (meson distinct_map inj_onD)
        with g(2) True show False by simp
      qed
      with True show ?thesis by simp
    next
      case False
      with f show ?thesis by (auto simp: nonDeclarationNames_def)
    qed
  qed
  have "weightsBelow ?N Map.empty" by (simp add: weightsBelow_def)
  from sortOnDependency_for_bound[OF assms(4) fin closed names this]
  have below: "weightsBelow ?N pwm"
    and decl: "\<forall>f \<in> set files. isDeclarationFile f \<longrightarrow> pwm (fileName f) = Some 10000" by simp_all
  have "card ?N \<le> card {f \<in> set files. \<not> isDeclarationFile f}"
    unfolding nonDeclarationNames_def by (rule card_image_le) simp
  also have "\<dots> = card (set (filter (\<lambda>f. \<not> isDeclarationFile f) files))" by simp
  also have "\<dots> \<le> length (filter (\<lambda>f. \<not> isDeclarationFile f) files)" by (rule card_length)
  finally have c: "card ?N \<le> 10000" using assms(3) by simp
  from sortOnDependency_for_dom[OF assms(4)] assms(7) obtain w where
    w: "pwm (fileName u) = Some w" by auto
  have "fileName u \<in> ?N" using assms(7,8) by (auto simp: nonDeclarationNames_def)
  with below w have "w < int (card ?N)" by (simp add: weightsBelow_def)
  with c have "w < 10000" by simp
  with decl assms(5,6) w show ?thesis by simp
qed

theorem sentinel_exceeds_weights_up_to_10000_units_witness:
  "buildDependencyMap 10 envABC (sourceFiles progABC) = Inr [(''a.ts'', [''b.ts'']), (''b.ts'', [''c.ts''])]
   \<and> wellFormedProgram envABC (sourceFiles progABC)
   \<and> length (filter (\<lambda>f. \<not> isDeclarationFile f) (sourceFiles progABC)) \<le> 10000
   \<and> sortOnDependency_for [(''a.ts'', [''b.ts'']), (''b.ts'', [''c.ts''])] (sourceFiles progABC) Map.empty
       = (None, [''lib.d.ts'' \<mapsto> 10000, ''a.ts'' \<mapsto> 0, ''b.ts'' \<mapsto> 1, ''c.ts'' \<mapsto> 2])
   \<and> fileLib \<in> set (sourceFiles progABC) \<and> isDeclarationFile fileLib
   \<and> fileC \<in> set (sourceFiles progABC) \<and> \<not> isDeclarationFile fileC
   \<and> (\<exists>w. [''lib.d.ts'' \<mapsto> 10000, ''a.ts'' \<mapsto> 0, ''b.ts'' \<mapsto> 1, ''c.ts'' \<mapsto> (2::int)] (fileName fileLib) = Some 10000
          \<and> [''lib.d.ts'' \<mapsto> 10000, ''a.ts'' \<mapsto> 0, ''b.ts'' \<mapsto> 1, ''c.ts'' \<mapsto> (2::int)] (fileName fileC) = Some w
          \<and> w < 10000)"
proof -
  have 1: "length (filter (\<lambda>f. \<not> isDeclarationFile f) (sourceFiles progABC)) \<le> 10000"
    by (simp add: example_defs)
  have 2: "fileLib \<in> set (sourceFiles progABC)" "fileC \<in> set (sourceFiles progABC)"
    by (simp_all add: progABC_def)
  have 3: "isDeclarationFile fileLib" "\<not> isDeclarationFile fileC"
    by (simp_all add: fileLib_def fileC_def)
  from sentinel_exceeds_weights_up_to_10000_units[OF build_progABC wellFormed_progABC 1
      weights_progABC 2(1) 3(1) 2(2) 3(2)]
    build_progABC wellFormed_progABC 1 weights_progABC 2 3
  show ?thesis by blast
qed

end
